theory Spec2Isabelle
  imports Complex_Main "HOL-Library.Multiset" "HOL-Library.Sublist"
begin

section \<open>Strings and elements\<close>

text \<open>
  A JavaScript string is a sequence of UTF-16 code units; \<open>charCodeAt\<close>, \<open>length\<close>,
  \<open>trim\<close> and the regular expressions of the source all work on code units. A code unit
  is modelled as a natural number, and \<open>js\<close> turns an ASCII literal into such a string.
\<close>

type_synonym jsstring = "nat list"

definition js :: "string \<Rightarrow> jsstring" where
  "js s = map of_char s"

abbreviation U :: "char \<Rightarrow> nat" where
  "U c \<equiv> of_char c"

text \<open>
  The drawable element as the session store, the render gate and the edit diff read it:
  the fields those functions access, each \<open>None\<close> where the property is \<open>undefined\<close>.
  An id is a string, as the declared key type of the session map (\<open>Map<string, any>\<close>)
  and the wire contract say; the geometry is numeric. \<open>el_label_text\<close> is
  \<open>el.label?.text\<close>.
\<close>

record element =
  el_id :: "jsstring option"
  el_type :: "jsstring option"
  el_text :: "jsstring option"
  el_label_text :: "jsstring option"
  el_x :: "rat option"
  el_y :: "rat option"
  el_width :: "rat option"
  el_height :: "rat option"

text \<open>\<open>if (el.id)\<close>: an id is truthy when it is a non-empty string.\<close>

fun truthy_id :: "jsstring option \<Rightarrow> bool" where
  "truthy_id None = False"
| "truthy_id (Some s) = (s \<noteq> [])"

text \<open>An element that carries only an id and a position, for concrete scenes.\<close>

definition mk_el :: "string \<Rightarrow> rat \<Rightarrow> rat \<Rightarrow> element" where
  "mk_el i x y = \<lparr>el_id = Some (js i), el_type = None, el_text = None, el_label_text = None,
     el_x = Some x, el_y = Some y, el_width = None, el_height = None\<rparr>"

section \<open>Scene session store (mcp-app.tsx, mergeSessionElements)\<close>

text \<open>
  A JavaScript \<open>Map\<close> iterates in insertion order, and \<open>set\<close> on a key that is already
  present replaces the value where the key stands, without moving it. The session map is
  therefore an association list in insertion order.
\<close>

type_synonym session_map = "(jsstring \<times> element) list"

fun Map_set :: "'k \<Rightarrow> 'v \<Rightarrow> ('k \<times> 'v) list \<Rightarrow> ('k \<times> 'v) list" where
  "Map_set k v [] = [(k, v)]"
| "Map_set k v ((k', v') # m) =
     (if k = k' then (k, v) # m else (k', v') # Map_set k v m)"

definition Map_values :: "session_map \<Rightarrow> element list" where
  "Map_values m = map snd m"

text \<open>The body of the loop \<open>for (const el of newElements) if (el.id) sessionMap.set(el.id, el)\<close>.\<close>

definition upsert :: "element \<Rightarrow> session_map \<Rightarrow> session_map" where
  "upsert el m = (case el_id el of
      None \<Rightarrow> m
    | Some k \<Rightarrow> if k \<noteq> [] then Map_set k el m else m)"

fun merge_loop :: "session_map \<Rightarrow> element list \<Rightarrow> session_map" where
  "merge_loop m [] = m"
| "merge_loop m (el # els) = merge_loop (upsert el m) els"

text \<open>\<open>mergeSessionElements\<close> mutates the map and returns its values: the model returns both.\<close>

definition mergeSessionElements :: "session_map \<Rightarrow> element list \<Rightarrow> session_map \<times> element list" where
  "mergeSessionElements sessionMap newElements =
     (let m = merge_loop sessionMap newElements in (m, Map_values m))"

text \<open>
  The load of persisted elements in \<open>ontoolinputpartial\<close> and \<open>ontoolinput\<close>: only when the
  map is empty, and only when something was persisted (\<open>None\<close> is the \<open>null\<close> of
  \<open>loadPersistedElements\<close>).
\<close>

definition loadPersisted :: "session_map \<Rightarrow> element list option \<Rightarrow> session_map" where
  "loadPersisted m persisted =
     (if m = [] then (case persisted of None \<Rightarrow> m | Some els \<Rightarrow> merge_loop m els) else m)"

text \<open>
  The merge of \<open>DiagramView\<close> for the preview: the background elements whose id is not
  among the ids of the new elements, then the new elements.
\<close>

definition previewMerge :: "element list \<Rightarrow> element list \<Rightarrow> element list" where
  "previewMerge bgElements drawElements =
     filter (\<lambda>el. el_id el \<notin> set (map el_id drawElements)) bgElements @ drawElements"

text \<open>The batch's elements that the merge stores, with their keys, in batch order.\<close>

definition keyed :: "element list \<Rightarrow> (jsstring \<times> element) list" where
  "keyed els = map (\<lambda>el. (the (el_id el), el)) (filter (\<lambda>el. truthy_id (el_id el)) els)"

text \<open>The last element of a batch stored under a key, if any.\<close>

definition latest :: "element list \<Rightarrow> jsstring \<Rightarrow> element option" where
  "latest els k = map_of (rev (keyed els)) k"

text \<open>The keys of a list in order of first appearance.\<close>

fun first_seen :: "jsstring list \<Rightarrow> jsstring list" where
  "first_seen [] = []"
| "first_seen (k # ks) = k # filter (\<lambda>j. j \<noteq> k) (first_seen ks)"

text \<open>
  What the merge leaves in the map, written out: the old entries where they stood, each
  holding the batch's last element of its id if the batch has one, then the ids new to the
  map in order of first appearance, each with the batch's last element of that id.
\<close>

definition merged :: "session_map \<Rightarrow> element list \<Rightarrow> session_map" where
  "merged m els =
     map (\<lambda>(k, v). (k, case latest els k of None \<Rightarrow> v | Some el \<Rightarrow> el)) m @
     map (\<lambda>k. (k, the (latest els k)))
       (filter (\<lambda>k. k \<notin> fst ` set m) (first_seen (map fst (keyed els))))"

text \<open>The invariant of the session map: every entry is keyed by its element's truthy id.\<close>

definition session_inv :: "session_map \<Rightarrow> bool" where
  "session_inv m = (distinct (map fst m) \<and> list_all (\<lambda>(k, v). k \<noteq> [] \<and> el_id v = Some k) m)"

section \<open>Render gate fingerprint (mcp-app.tsx, contentHash)\<close>

text \<open>\<open>x | 0\<close>: the number as a signed 32-bit integer.\<close>

definition ToInt32 :: "int \<Rightarrow> int" where
  "ToInt32 x = (x + 2 ^ 31) mod 2 ^ 32 - 2 ^ 31"

text \<open>The inner loop over the code units of one id, and the outer loop over the elements.\<close>

fun hash_id :: "int \<Rightarrow> jsstring \<Rightarrow> int" where
  "hash_id h [] = h"
| "hash_id h (c # cs) = hash_id (ToInt32 (h + int c)) cs"

fun hash_loop :: "int \<Rightarrow> element list \<Rightarrow> int" where
  "hash_loop h [] = h"
| "hash_loop h (el # els) =
     hash_loop (hash_id h (case el_id el of None \<Rightarrow> [] | Some i \<Rightarrow> i)) els"

definition contentHash :: "element list \<Rightarrow> int" where
  "contentHash elements = hash_loop 0 elements"

text \<open>
  The condition under which a partial pass re-renders, given the count and the hash of the
  previous render (\<open>latestRef.current.length\<close>, \<open>latestHashRef.current\<close>).
\<close>

definition renderGate :: "nat \<Rightarrow> int \<Rightarrow> element list \<Rightarrow> bool" where
  "renderGate prevCount prevHash drawElements =
     (length drawElements > 0 \<and>
      (length drawElements \<noteq> prevCount \<or> contentHash drawElements \<noteq> prevHash))"

text \<open>The sum of the code units of one id (\<open>el.id ?? ""\<close>).\<close>

definition id_sum :: "jsstring option \<Rightarrow> int" where
  "id_sum i = sum_list (map int (case i of None \<Rightarrow> [] | Some s \<Rightarrow> s))"

section \<open>JavaScript numbers\<close>

text \<open>
  A JavaScript number is an IEEE 754 double: a finite value, an infinity or \<open>NaN\<close>. The
  finite values are kept as the real numbers they denote; the sign of a zero is not kept
  (nothing modelled here divides by zero or prints one).
\<close>

datatype number = Num real | PosInf | NegInf | NaN

text \<open>The number of bits of a positive integer, and the powers of two.\<close>

function blen :: "int \<Rightarrow> nat" where
  "blen n = (if n \<le> 0 then 0 else Suc (blen (n div 2)))"
  by pat_completeness auto
termination
  by (relation "measure nat") auto

declare blen.simps [simp del]

definition pow2 :: "int \<Rightarrow> real" where
  "pow2 e = (if e \<ge> 0 then 2 ^ nat e else 1 / 2 ^ nat (- e))"

text \<open>For a positive \<open>x\<close>, the exponent \<open>e\<close> with \<open>2^e \<le> x < 2^(e+1)\<close>.\<close>

definition ilog2 :: "real \<Rightarrow> int" where
  "ilog2 x = (if x \<ge> 1 then int (blen \<lfloor>x\<rfloor>) - 1 else - int (blen (\<lceil>1 / x\<rceil> - 1)))"

text \<open>The nearest integer, a tie going to the even one.\<close>

definition round_even :: "real \<Rightarrow> int" where
  "round_even q =
     (let f = \<lfloor>q\<rfloor>; d = q - of_int f
      in if d < 1 / 2 then f else if d > 1 / 2 then f + 1 else if even f then f else f + 1)"

text \<open>
  The double nearest to a real number (round to nearest, ties to even): 53 significant
  bits, the exponent not below -1022 (subnormal numbers are multiples of \<open>2^-1074\<close>), and
  an infinity when the rounded magnitude reaches \<open>2^1024\<close>. Every arithmetic operation on
  finite doubles gives the exact result rounded this way.
\<close>

definition rnd :: "real \<Rightarrow> number" where
  "rnd x =
     (if x = 0 then Num 0
      else
        (let e = max (ilog2 \<bar>x\<bar>) (- 1022);
             u = pow2 (e - 52);
             y = of_int (round_even (x / u)) * u
         in if \<bar>y\<bar> \<ge> pow2 1024 then (if x > 0 then PosInf else NegInf) else Num y))"

text \<open>
  Addition, subtraction and multiplication of doubles, \<open>Math.abs\<close> and the comparison
  \<open>>\<close>: the exact result rounded, with the rules of IEEE 754 for the infinities and
  \<open>NaN\<close> (a comparison with \<open>NaN\<close> is false).
\<close>

fun n_add :: "number \<Rightarrow> number \<Rightarrow> number" where
  "n_add (Num x) (Num y) = rnd (x + y)"
| "n_add NaN _ = NaN"
| "n_add _ NaN = NaN"
| "n_add PosInf NegInf = NaN"
| "n_add NegInf PosInf = NaN"
| "n_add PosInf _ = PosInf"
| "n_add _ PosInf = PosInf"
| "n_add NegInf _ = NegInf"
| "n_add _ NegInf = NegInf"

fun n_sub :: "number \<Rightarrow> number \<Rightarrow> number" where
  "n_sub (Num x) (Num y) = rnd (x - y)"
| "n_sub NaN _ = NaN"
| "n_sub _ NaN = NaN"
| "n_sub PosInf PosInf = NaN"
| "n_sub NegInf NegInf = NaN"
| "n_sub PosInf _ = PosInf"
| "n_sub _ NegInf = PosInf"
| "n_sub NegInf _ = NegInf"
| "n_sub _ PosInf = NegInf"

fun n_mul :: "number \<Rightarrow> number \<Rightarrow> number" where
  "n_mul (Num x) (Num y) = rnd (x * y)"
| "n_mul NaN _ = NaN"
| "n_mul _ NaN = NaN"
| "n_mul (Num x) b = (if x = 0 then NaN else if (x > 0) = (b = PosInf) then PosInf else NegInf)"
| "n_mul a (Num y) = (if y = 0 then NaN else if (y > 0) = (a = PosInf) then PosInf else NegInf)"
| "n_mul a b = (if a = b then PosInf else NegInf)"

fun n_abs :: "number \<Rightarrow> number" where
  "n_abs (Num x) = Num \<bar>x\<bar>"
| "n_abs NaN = NaN"
| "n_abs _ = PosInf"

fun n_gt :: "number \<Rightarrow> number \<Rightarrow> bool" where
  "n_gt (Num x) (Num y) = (x > y)"
| "n_gt NaN _ = False"
| "n_gt _ NaN = False"
| "n_gt PosInf b = (b \<noteq> PosInf)"
| "n_gt a NegInf = (a \<noteq> NegInf)"
| "n_gt _ _ = False"

section \<open>Edit diff tracker (edit-context.ts, captureInitialElements and computeDiff)\<close>


























section \<open>Viewport animator (mcp-app.tsx, adaptiveLerpSpeed and animateViewBox)\<close>

text \<open>A viewport is four doubles.\<close>

record ViewportRect =
  vp_x :: number
  vp_y :: number
  vp_width :: number
  vp_height :: number

text \<open>
  The literals \<open>0.08\<close>, \<open>0.05\<close> and \<open>0.025\<close> are the doubles nearest to these decimals;
  \<open>500\<close>, \<open>100\<close> and \<open>0.5\<close> are doubles themselves.
\<close>

definition adaptiveLerpSpeed :: "number \<Rightarrow> number" where
  "adaptiveLerpSpeed distance =
     (if n_gt distance (Num 500) then rnd (8 / 100)
      else if n_gt distance (Num 100) then rnd (5 / 100)
      else rnd (25 / 1000))"

text \<open>The combined distance as the step computes it, summed from left to right.\<close>

definition vp_distance :: "ViewportRect \<Rightarrow> ViewportRect \<Rightarrow> number" where
  "vp_distance a t =
     n_add (n_add (n_add (n_abs (n_sub (vp_x t) (vp_x a))) (n_abs (n_sub (vp_y t) (vp_y a))))
                  (n_abs (n_sub (vp_width t) (vp_width a))))
           (n_abs (n_sub (vp_height t) (vp_height a)))"

text \<open>
  One call of \<open>animateViewBox\<close> with both refs set: the animated viewport after the four
  updates \<open>a.f += (t.f - a.f) * speed\<close>, and whether the call requests another frame. The
  distance that decides is the one measured before the updates.
\<close>

definition animateViewBox :: "ViewportRect \<Rightarrow> ViewportRect \<Rightarrow> ViewportRect \<times> bool" where
  "animateViewBox a t =
     (let distance = vp_distance a t;
          speed = adaptiveLerpSpeed distance
      in (\<lparr>vp_x = n_add (vp_x a) (n_mul (n_sub (vp_x t) (vp_x a)) speed),
           vp_y = n_add (vp_y a) (n_mul (n_sub (vp_y t) (vp_y a)) speed),
           vp_width = n_add (vp_width a) (n_mul (n_sub (vp_width t) (vp_width a)) speed),
           vp_height = n_add (vp_height a) (n_mul (n_sub (vp_height t) (vp_height a)) speed)\<rparr>,
          n_gt distance (Num (1 / 2))))"

text \<open>
  The frames of one animation toward a fixed target: each requested frame calls
  \<open>animateViewBox\<close> again. The result is the viewport when no further frame is requested;
  \<open>None\<close> is an animation that requests frames forever.
\<close>

partial_function (option) animate :: "ViewportRect \<Rightarrow> ViewportRect \<Rightarrow> ViewportRect option" where
  "animate a t =
     (let (a', again) = animateViewBox a t
      in if again then animate a' t else Some a')"

text \<open>The animated viewport after a number of calls of the step.\<close>

fun frames :: "nat \<Rightarrow> ViewportRect \<Rightarrow> ViewportRect \<Rightarrow> ViewportRect" where
  "frames 0 a t = a"
| "frames (Suc n) a t = frames n (fst (animateViewBox a t)) t"

text \<open>
  For the statements about the animation: a viewport whose four fields are finite and of
  magnitude at most \<open>b\<close>, the value of a finite double, and the combined distance of two
  viewports as an exact real number.
\<close>

definition mag_le :: "real \<Rightarrow> number \<Rightarrow> bool" where
  "mag_le b n = (case n of Num x \<Rightarrow> \<bar>x\<bar> \<le> b | _ \<Rightarrow> False)"

definition bounded_vp :: "real \<Rightarrow> ViewportRect \<Rightarrow> bool" where
  "bounded_vp b v =
     (mag_le b (vp_x v) \<and> mag_le b (vp_y v) \<and> mag_le b (vp_width v) \<and> mag_le b (vp_height v))"

definition val :: "number \<Rightarrow> real" where
  "val n = (case n of Num x \<Rightarrow> x | _ \<Rightarrow> 0)"

definition l1 :: "ViewportRect \<Rightarrow> ViewportRect \<Rightarrow> real" where
  "l1 a t =
     \<bar>val (vp_x t) - val (vp_x a)\<bar> + \<bar>val (vp_y t) - val (vp_y a)\<bar> +
     \<bar>val (vp_width t) - val (vp_width a)\<bar> + \<bar>val (vp_height t) - val (vp_height a)\<bar>"

section \<open>The JSON text the decoder reads (JSON.parse)\<close>

text \<open>
  A JSON value. A number keeps its literal text (\<open>JSON.parse\<close> turns it into the nearest
  double, which nothing modelled here reads). An object is its property list in creation
  order; a key that repeats in the text replaces the value of the first, as \<open>JSON.parse\<close>
  does.
\<close>

datatype json =
    JNull
  | JBool bool
  | JNum jsstring
  | JStr jsstring
  | JArr "json list"
  | JObj "(jsstring \<times> json) list"

datatype js_error = SyntaxError | TypeError

text \<open>
  \<open>JSON.parse\<close> as a machine that reads the text one code unit at a time, by the JSON
  grammar (ECMA-404). A frame is an array or an object that is still open, with what it
  holds so far, and for an object the key whose value is being read.
\<close>

datatype frame =
    FArr "json list"
  | FObj "(jsstring \<times> json) list" "jsstring option"

text \<open>Where the machine is inside a number literal.\<close>

datatype numstate = NumMinus | NumZero | NumInt | NumDot | NumFrac | NumE | NumESign | NumExp

text \<open>
  What the machine expects next: a value; a value or \<open>]\<close> (just after \<open>[\<close>); a key or
  \<open>}\<close> (just after \<open>{\<close>); a key (after a comma in an object); the colon; a comma or a
  closing bracket (after a value); or it is inside a string (with the text so far, and
  whether the string is a key), an escape, a \<open>\uXXXX\<close> escape (digits read, value so
  far), a number or one of the literals \<open>true\<close>, \<open>false\<close>, \<open>null\<close> (the code units still
  to come, and the value).
\<close>

datatype mode =
    Value | ValueOrEnd | KeyOrEnd | Key | Colon | After
  | InStr jsstring bool
  | InEsc jsstring bool
  | InUni jsstring bool nat nat
  | InNum numstate jsstring
  | InLit jsstring json

datatype pstate = PS mode "frame list" | Done json | Err

definition json_ws :: "nat \<Rightarrow> bool" where
  "json_ws c = (c = 32 \<or> c = 9 \<or> c = 10 \<or> c = 13)"

definition is_digit :: "nat \<Rightarrow> bool" where
  "is_digit c = (48 \<le> c \<and> c \<le> 57)"

definition hex_value :: "nat \<Rightarrow> nat option" where
  "hex_value c =
     (if 48 \<le> c \<and> c \<le> 57 then Some (c - 48)
      else if 65 \<le> c \<and> c \<le> 70 then Some (c - 55)
      else if 97 \<le> c \<and> c \<le> 102 then Some (c - 87)
      else None)"

text \<open>A value is complete: it goes into the innermost open frame, or is the result.\<close>

fun close_value :: "json \<Rightarrow> frame list \<Rightarrow> pstate" where
  "close_value v [] = Done v"
| "close_value v (FArr xs # st) = PS After (FArr (xs @ [v]) # st)"
| "close_value v (FObj ms (Some k) # st) = PS After (FObj (Map_set k v ms) None # st)"
| "close_value v (FObj ms None # st) = Err"

fun close_array :: "frame list \<Rightarrow> pstate" where
  "close_array (FArr xs # st) = close_value (JArr xs) st"
| "close_array _ = Err"

fun close_object :: "frame list \<Rightarrow> pstate" where
  "close_object (FObj ms None # st) = close_value (JObj ms) st"
| "close_object _ = Err"

text \<open>The first code unit of a value.\<close>

definition start_value :: "nat \<Rightarrow> frame list \<Rightarrow> pstate" where
  "start_value c st =
     (if c = U CHR ''['' then PS ValueOrEnd (FArr [] # st)
      else if c = U CHR ''{'' then PS KeyOrEnd (FObj [] None # st)
      else if c = U CHR 0x22 then PS (InStr [] False) st
      else if c = U CHR ''-'' then PS (InNum NumMinus [c]) st
      else if c = U CHR ''0'' then PS (InNum NumZero [c]) st
      else if is_digit c then PS (InNum NumInt [c]) st
      else if c = U CHR ''t'' then PS (InLit (js ''rue'') (JBool True)) st
      else if c = U CHR ''f'' then PS (InLit (js ''alse'') (JBool False)) st
      else if c = U CHR ''n'' then PS (InLit (js ''ull'') JNull) st
      else Err)"

text \<open>After a value inside a frame: a comma, or the bracket that closes the frame.\<close>

definition step_after :: "nat \<Rightarrow> frame list \<Rightarrow> pstate" where
  "step_after c st =
     (if json_ws c then PS After st
      else if c = U CHR '','' then
        (case st of [] \<Rightarrow> Err | FArr xs # r \<Rightarrow> PS Value st | FObj ms k # r \<Rightarrow> PS Key st)
      else if c = U CHR '']'' then close_array st
      else if c = U CHR ''}'' then close_object st
      else Err)"

text \<open>After the whole value: only whitespace may follow.\<close>

definition step_done :: "json \<Rightarrow> nat \<Rightarrow> pstate" where
  "step_done v c = (if json_ws c then Done v else Err)"

text \<open>The number grammar: the state after one more code unit of the literal, if it is one.\<close>

fun num_next :: "numstate \<Rightarrow> nat \<Rightarrow> numstate option" where
  "num_next NumMinus c =
     (if c = U CHR ''0'' then Some NumZero else if is_digit c then Some NumInt else None)"
| "num_next NumZero c =
     (if c = U CHR ''.'' then Some NumDot
      else if c = U CHR ''e'' \<or> c = U CHR ''E'' then Some NumE else None)"
| "num_next NumInt c =
     (if is_digit c then Some NumInt
      else if c = U CHR ''.'' then Some NumDot
      else if c = U CHR ''e'' \<or> c = U CHR ''E'' then Some NumE else None)"
| "num_next NumDot c = (if is_digit c then Some NumFrac else None)"
| "num_next NumFrac c =
     (if is_digit c then Some NumFrac
      else if c = U CHR ''e'' \<or> c = U CHR ''E'' then Some NumE else None)"
| "num_next NumE c =
     (if c = U CHR ''+'' \<or> c = U CHR ''-'' then Some NumESign
      else if is_digit c then Some NumExp else None)"
| "num_next NumESign c = (if is_digit c then Some NumExp else None)"
| "num_next NumExp c = (if is_digit c then Some NumExp else None)"

fun num_final :: "numstate \<Rightarrow> bool" where
  "num_final NumZero = True"
| "num_final NumInt = True"
| "num_final NumFrac = True"
| "num_final NumExp = True"
| "num_final _ = False"

text \<open>A string is complete: it is the key of the innermost object, or a value.\<close>

fun close_string :: "jsstring \<Rightarrow> bool \<Rightarrow> frame list \<Rightarrow> pstate" where
  "close_string s False st = close_value (JStr s) st"
| "close_string s True (FObj ms k # st) = PS Colon (FObj ms (Some s) # st)"
| "close_string s True _ = Err"

definition escape_value :: "nat \<Rightarrow> nat option" where
  "escape_value c =
     (if c = U CHR 0x22 \<or> c = U CHR 0x5C \<or> c = U CHR ''/'' then Some c
      else if c = U CHR ''b'' then Some 8
      else if c = U CHR ''f'' then Some 12
      else if c = U CHR ''n'' then Some 10
      else if c = U CHR ''r'' then Some 13
      else if c = U CHR ''t'' then Some 9
      else None)"

text \<open>One code unit in each mode.\<close>

fun step_mode :: "mode \<Rightarrow> frame list \<Rightarrow> nat \<Rightarrow> pstate" where
  "step_mode Value st c = (if json_ws c then PS Value st else start_value c st)"
| "step_mode ValueOrEnd st c =
     (if json_ws c then PS ValueOrEnd st
      else if c = U CHR '']'' then close_array st
      else start_value c st)"
| "step_mode KeyOrEnd st c =
     (if json_ws c then PS KeyOrEnd st
      else if c = U CHR 0x22 then PS (InStr [] True) st
      else if c = U CHR ''}'' then close_object st
      else Err)"
| "step_mode Key st c =
     (if json_ws c then PS Key st
      else if c = U CHR 0x22 then PS (InStr [] True) st
      else Err)"
| "step_mode Colon st c =
     (if json_ws c then PS Colon st
      else if c = U CHR '':'' then PS Value st
      else Err)"
| "step_mode After st c = step_after c st"
| "step_mode (InStr s k) st c =
     (if c = U CHR 0x22 then close_string s k st
      else if c = U CHR 0x5C then PS (InEsc s k) st
      else if c < 32 then Err
      else PS (InStr (s @ [c]) k) st)"
| "step_mode (InEsc s k) st c =
     (if c = U CHR ''u'' then PS (InUni s k 0 0) st
      else (case escape_value c of None \<Rightarrow> Err | Some e \<Rightarrow> PS (InStr (s @ [e]) k) st))"
| "step_mode (InUni s k n v) st c =
     (case hex_value c of
        None \<Rightarrow> Err
      | Some h \<Rightarrow>
          if n = 3 then PS (InStr (s @ [v * 16 + h]) k) st
          else PS (InUni s k (Suc n) (v * 16 + h)) st)"
| "step_mode (InNum ns lit) st c =
     (case num_next ns c of
        Some ns' \<Rightarrow> PS (InNum ns' (lit @ [c])) st
      | None \<Rightarrow>
          if num_final ns then
            (case close_value (JNum lit) st of
               PS m st' \<Rightarrow> step_after c st'
             | Done v \<Rightarrow> step_done v c
             | Err \<Rightarrow> Err)
          else Err)"
| "step_mode (InLit rest v) st c =
     (case rest of
        [] \<Rightarrow> Err
      | r # rs \<Rightarrow>
          if c \<noteq> r then Err
          else if rs = [] then close_value v st
          else PS (InLit rs v) st)"

fun step :: "pstate \<Rightarrow> nat \<Rightarrow> pstate" where
  "step (PS m st) c = step_mode m st c"
| "step (Done v) c = step_done v c"
| "step Err c = Err"

text \<open>The end of the text: the value must be complete (a number at top level ends here).\<close>

fun finish :: "pstate \<Rightarrow> js_error + json" where
  "finish (Done v) = Inr v"
| "finish (PS (InNum ns lit) []) = (if num_final ns then Inr (JNum lit) else Inl SyntaxError)"
| "finish _ = Inl SyntaxError"

definition run :: "pstate \<Rightarrow> jsstring \<Rightarrow> pstate" where
  "run \<sigma> s = foldl step \<sigma> s"

definition JSON_parse :: "jsstring \<Rightarrow> js_error + json" where
  "JSON_parse s = finish (run (PS Value []) s)"

section \<open>Tolerant stream decoder (mcp-app.tsx, parsePartialElements)\<close>

text \<open>
  The white space of \<open>String.prototype.trim\<close> and of \<open>\s\<close> in a regular expression: the
  WhiteSpace and LineTerminator code points of ECMAScript.
\<close>

definition js_whitespace :: "nat \<Rightarrow> bool" where
  "js_whitespace c =
     (c \<in> set [9, 10, 11, 12, 13, 32, 160, 0x1680, 0x2028, 0x2029, 0x202F, 0x205F, 0x3000, 0xFEFF]
      \<or> (0x2000 \<le> c \<and> c \<le> 0x200A))"

definition trim :: "jsstring \<Rightarrow> jsstring" where
  "trim s = rev (dropWhile js_whitespace (rev (dropWhile js_whitespace s)))"

text \<open>
  A pattern is a list of tests, one per code unit. \<open>matches_at\<close> tests the pattern at the
  start of the text, \<open>search\<close> at every position, as \<open>RegExp.prototype.test\<close> and
  \<open>String.prototype.includes\<close> do.
\<close>

fun matches_at :: "(nat \<Rightarrow> bool) list \<Rightarrow> jsstring \<Rightarrow> bool" where
  "matches_at [] s = True"
| "matches_at (p # ps) [] = False"
| "matches_at (p # ps) (c # cs) = (p c \<and> matches_at ps cs)"

fun search :: "(nat \<Rightarrow> bool) list \<Rightarrow> jsstring \<Rightarrow> bool" where
  "search ps [] = matches_at ps []"
| "search ps (c # cs) = (matches_at ps (c # cs) \<or> search ps cs)"

text \<open>
  One literal code unit, exactly, and under the flag \<open>i\<close>: an ASCII letter matches itself
  in both cases and nothing else (a code unit above 127 is never folded to ASCII).
\<close>

definition exact :: "nat \<Rightarrow> nat \<Rightarrow> bool" where
  "exact p c = (c = p)"

definition fold_case :: "nat \<Rightarrow> nat" where
  "fold_case c = (if 97 \<le> c \<and> c \<le> 122 then c - 32 else c)"

definition ignore_case :: "nat \<Rightarrow> nat \<Rightarrow> bool" where
  "ignore_case p c = (fold_case c = fold_case p)"

text \<open>\<open>/Standalone|not found|<!DOCTYPE|error\s/i.test(s)\<close>\<close>

definition nonpayload_regex :: "jsstring \<Rightarrow> bool" where
  "nonpayload_regex s =
     (search (map ignore_case (js ''Standalone'')) s \<or>
      search (map ignore_case (js ''not found'')) s \<or>
      search (map ignore_case (js ''<!DOCTYPE'')) s \<or>
      search (map ignore_case (js ''error'') @ [js_whitespace]) s)"

definition includes_str :: "jsstring \<Rightarrow> jsstring \<Rightarrow> bool" where
  "includes_str s t = search (map exact t) s"

definition startsWith :: "jsstring \<Rightarrow> jsstring \<Rightarrow> bool" where
  "startsWith s t = matches_at (map exact t) s"

text \<open>
  \<open>s.lastIndexOf(c)\<close> for one code unit: the last index at which it stands, or -1. The
  scan keeps the index of the latest occurrence seen.
\<close>

fun lastIndexOf_from :: "jsstring \<Rightarrow> nat \<Rightarrow> nat \<Rightarrow> int \<Rightarrow> int" where
  "lastIndexOf_from [] c i found = found"
| "lastIndexOf_from (x # xs) c i found =
     lastIndexOf_from xs c (Suc i) (if x = c then int i else found)"

definition lastIndexOf :: "jsstring \<Rightarrow> nat \<Rightarrow> int" where
  "lastIndexOf s c = lastIndexOf_from s c 0 (- 1)"

definition substring :: "jsstring \<Rightarrow> nat \<Rightarrow> nat \<Rightarrow> jsstring" where
  "substring s i j = take (j - i) (drop i s)"

text \<open>
  \<open>parsePartialElements\<close>. A \<open>try\<close> around \<open>return JSON.parse(...)\<close> returns the value or
  goes on after the \<open>catch\<close>. Nothing else in the body throws, so the outer \<open>catch\<close> has
  no case of its own, and the function ends with \<open>return []\<close>.
\<close>

definition parsePartialElements :: "jsstring option \<Rightarrow> js_error + json" where
  "parsePartialElements str =
     (let s = (case str of Some t \<Rightarrow> trim t | None \<Rightarrow> []) in
      if s = [] \<or> \<not> startsWith s (js ''['') then Inr (JArr [])
      else if nonpayload_regex s \<or> (length s > 300 \<and> \<not> includes_str s (js ''type''))
        then Inr (JArr [])
      else
        (case JSON_parse s of
           Inr v \<Rightarrow> Inr v
         | Inl e \<Rightarrow>
             (let last = lastIndexOf s (U CHR ''}'') in
              if last < 0 then Inr (JArr [])
              else
                (case JSON_parse (substring s 0 (nat (last + 1)) @ js '']'') of
                   Inr v \<Rightarrow> Inr v
                 | Inl e' \<Rightarrow> Inr (JArr [])))))"

text \<open>The elements of the array the decoder returned.\<close>

definition decoded :: "jsstring option \<Rightarrow> json list" where
  "decoded str = (case parsePartialElements str of Inr (JArr xs) \<Rightarrow> xs | _ \<Rightarrow> [])"

section \<open>Instruction classifier (mcp-app.tsx)\<close>

definition excludeIncompleteLastItem :: "'a list \<Rightarrow> 'a list" where
  "excludeIncompleteLastItem arr =
     (if length arr = 0 then [] else if length arr \<le> 1 then [] else butlast arr)"

text \<open>
  Reading a property of a decoded record: \<open>None\<close> is \<open>undefined\<close>, and reading a property
  of \<open>null\<close> throws. Only the names \<open>type\<close>, \<open>x\<close>, \<open>y\<close>, \<open>width\<close> and \<open>height\<close> are read,
  which arrays, strings, numbers and booleans do not have.
\<close>

fun get_prop :: "json \<Rightarrow> jsstring \<Rightarrow> js_error + json option" where
  "get_prop JNull k = Inl TypeError"
| "get_prop (JObj ms) k = Inr (map_of ms k)"
| "get_prop _ k = Inr None"

record RawViewport =
  rv_x :: "json option"
  rv_y :: "json option"
  rv_width :: "json option"
  rv_height :: "json option"

fun extract_loop :: "json list \<Rightarrow> RawViewport option \<Rightarrow> json list
    \<Rightarrow> js_error + (RawViewport option \<times> json list)" where
  "extract_loop [] viewport drawElements = Inr (viewport, drawElements)"
| "extract_loop (el # els) viewport drawElements =
     (case get_prop el (js ''type'') of
        Inl e \<Rightarrow> Inl e
      | Inr t \<Rightarrow>
          if t = Some (JStr (js ''cameraUpdate'')) \<or> t = Some (JStr (js ''viewportUpdate''))
          then
            (case (get_prop el (js ''x''), get_prop el (js ''y''),
                   get_prop el (js ''width''), get_prop el (js ''height'')) of
               (Inr x, Inr y, Inr w, Inr h) \<Rightarrow>
                 extract_loop els (Some \<lparr>rv_x = x, rv_y = y, rv_width = w, rv_height = h\<rparr>)
                   drawElements
             | _ \<Rightarrow> Inl TypeError)
          else extract_loop els viewport (drawElements @ [el]))"

definition extractViewportAndElements :: "json list
    \<Rightarrow> js_error + (RawViewport option \<times> json list)" where
  "extractViewportAndElements elements = extract_loop elements None []"

text \<open>The non-final path of \<open>DiagramView\<close> up to the classifier.\<close>

definition partialPass :: "jsstring option \<Rightarrow> js_error + (RawViewport option \<times> json list)" where
  "partialPass str = extractViewportAndElements (excludeIncompleteLastItem (decoded str))"

section \<open>Invariants of the JSON machine\<close>

text \<open>
  The outermost open frame is an array that holds at least the elements \<open>xs\<close>, in this
  order, at its start.
\<close>

definition bottom :: "frame list \<Rightarrow> json list \<Rightarrow> bool" where
  "bottom st xs = (st \<noteq> [] \<and> (case last st of FArr ys \<Rightarrow> prefix xs ys | FObj ms k \<Rightarrow> False))"

text \<open>
  The same for a state of the machine: the outermost frame is such an array, or the result
  is one, or the text was refused.
\<close>

fun bottom_extends :: "json list \<Rightarrow> pstate \<Rightarrow> bool" where
  "bottom_extends xs (PS m st) = bottom st xs"
| "bottom_extends xs (Done (JArr ys)) = prefix xs ys"
| "bottom_extends xs (Done _) = False"
| "bottom_extends xs Err = True"

fun in_num :: "pstate \<Rightarrow> bool" where
  "in_num (PS (InNum ns lit) st) = True"
| "in_num _ = False"

section \<open>The decoder, case by case\<close>

text \<open>
  Names for the parts of \<open>parsePartialElements\<close>: the test of the two early returns on the
  trimmed text, the text up to and including its last \<open>}\<close>, and the elements of a parsed
  array.
\<close>

definition rejected :: "jsstring \<Rightarrow> bool" where
  "rejected s =
     (s = [] \<or> \<not> startsWith s (js ''['') \<or> nonpayload_regex s \<or>
      (length s > 300 \<and> \<not> includes_str s (js ''type'')))"

definition cut_at_last_brace :: "jsstring \<Rightarrow> jsstring" where
  "cut_at_last_brace s = substring s 0 (nat (lastIndexOf s (U CHR ''}'') + 1))"

definition arr_elems :: "json \<Rightarrow> json list" where
  "arr_elems v = (case v of JArr xs \<Rightarrow> xs | _ \<Rightarrow> [])"

section \<open>The session store: proofs\<close>

lemma keys_Map_set:
  "map fst (Map_set k v m) = (if k \<in> fst ` set m then map fst m else map fst m @ [k])"
  by (induction m) force+

lemma keyset_Map_set: "fst ` set (Map_set k v m) = insert k (fst ` set m)"
proof (induction m)
  case Nil
  show ?case by simp
next
  case (Cons p m)
  obtain k' v' where p: "p = (k', v')" by (cases p)
  show ?case using Cons.IH by (cases "k = k'") (auto simp: p)
qed

lemma map_of_Map_set: "map_of (Map_set k v m) = (map_of m)(k \<mapsto> v)"
  by (induction m) (auto simp: fun_upd_twist)


lemma Map_set_twice: "Map_set k v (Map_set k v' m) = Map_set k v m"
  by (induction m) auto

lemma Map_set_commute:
  "k \<in> fst ` set m \<Longrightarrow> k \<noteq> j \<Longrightarrow> Map_set j e (Map_set k v m) = Map_set k v (Map_set j e m)"
  by (induction m) force+

lemma Map_set_same: "map_of m k = Some v \<Longrightarrow> Map_set k v m = m"
  by (induction m) (auto split: if_splits)

lemma keys_upsert_mono: "k \<in> fst ` set m \<Longrightarrow> k \<in> fst ` set (upsert el m)"
  by (auto simp: upsert_def keyset_Map_set split: option.splits)

lemma merge_loop_override:
  "k \<in> fst ` set m \<Longrightarrow> k \<in> fst ` set (keyed b) \<Longrightarrow>
   merge_loop (Map_set k v m) b = merge_loop m b"
proof (induction b arbitrary: m)
  case Nil
  then show ?case by (simp add: keyed_def)
next
  case (Cons e b)
  show ?case
  proof (cases "truthy_id (el_id e)")
    case False
    then have u: "upsert e (Map_set k v m) = Map_set k v m" "upsert e m = m"
      by (auto simp: upsert_def split: option.splits)
    from False Cons.prems have "k \<in> fst ` set (keyed b)" by (auto simp: keyed_def)
    with Cons.IH[OF Cons.prems(1)] u show ?thesis by simp
  next
    case True
    then obtain j where j: "el_id e = Some j" "j \<noteq> []" by (cases "el_id e") auto
    show ?thesis
    proof (cases "j = k")
      case True
      with j show ?thesis by (simp add: upsert_def Map_set_twice)
    next
      case False
      with j Cons.prems have kb: "k \<in> fst ` set (keyed b)" by (auto simp: keyed_def)
      have km: "k \<in> fst ` set (Map_set j e m)" using Cons.prems(1) by (simp add: keyset_Map_set)
      have "k \<noteq> j" using False by simp
      from Map_set_commute[OF Cons.prems(1) this]
      have "upsert e (Map_set k v m) = Map_set k v (Map_set j e m)"
        using j by (simp add: upsert_def)
      moreover have "upsert e m = Map_set j e m" using j by (simp add: upsert_def)
      ultimately show ?thesis using Cons.IH[OF km kb] by simp
    qed
  qed
qed

lemma map_of_merge_loop_other:
  "k \<notin> fst ` set (keyed b) \<Longrightarrow> map_of (merge_loop m b) k = map_of m k"
proof (induction b arbitrary: m)
  case Nil then show ?case by simp
next
  case (Cons e b)
  then show ?case
    by (cases "el_id e") (auto simp: keyed_def upsert_def map_of_Map_set)
qed

lemma keys_merge_loop_mono: "k \<in> fst ` set m \<Longrightarrow> k \<in> fst ` set (merge_loop m b)"
  by (induction b arbitrary: m) (auto simp: keys_upsert_mono)

lemma merge_loop_idem: "merge_loop (merge_loop m b) b = merge_loop m b"
proof (induction b arbitrary: m)
  case Nil then show ?case by simp
next
  case (Cons e b)
  let ?M = "merge_loop (upsert e m) b"
  have IH: "merge_loop ?M b = ?M" by (rule Cons.IH)
  show ?case
  proof (cases "truthy_id (el_id e)")
    case False
    then have "upsert e ?M = ?M" by (auto simp: upsert_def split: option.splits)
    then show ?thesis using IH by simp
  next
    case True
    then obtain k where k: "el_id e = Some k" "k \<noteq> []" by (cases "el_id e") auto
    then have up: "upsert e m = Map_set k e m" "upsert e ?M = Map_set k e ?M"
      by (simp_all add: upsert_def)
    have kin: "k \<in> fst ` set ?M"
      by (rule keys_merge_loop_mono) (simp add: up keyset_Map_set)
    show ?thesis
    proof (cases "k \<in> fst ` set (keyed b)")
      case True
      then have "merge_loop (Map_set k e ?M) b = merge_loop ?M b"
        using kin by (rule merge_loop_override[rotated])
      then show ?thesis using IH up by simp
    next
      case False
      then have "map_of ?M k = map_of (Map_set k e m) k"
        unfolding up by (rule map_of_merge_loop_other)
      then have "map_of ?M k = Some e" by (simp add: map_of_Map_set)
      then have "Map_set k e ?M = ?M" by (rule Map_set_same)
      then show ?thesis using IH up by simp
    qed
  qed
qed

lemma keys_merge_loop:
  "map fst (merge_loop m b) =
   map fst m @ filter (\<lambda>k. k \<notin> fst ` set m) (first_seen (map fst (keyed b)))"
proof (induction b arbitrary: m)
  case Nil
  show ?case by (simp add: keyed_def)
next
  case (Cons e b)
  show ?case
  proof (cases "truthy_id (el_id e)")
    case False
    then have "upsert e m = m" "keyed (e # b) = keyed b"
      by (auto simp: upsert_def keyed_def split: option.splits)
    then show ?thesis using Cons.IH[of m] by simp
  next
    case True
    then obtain k where k: "el_id e = Some k" "k \<noteq> []" by (cases "el_id e") auto
    then have up: "upsert e m = Map_set k e m" and ky: "keyed (e # b) = (k, e) # keyed b"
      by (simp_all add: upsert_def keyed_def)
    let ?fs = "first_seen (map fst (keyed b))"
    have IH: "map fst (merge_loop (Map_set k e m) b) =
       map fst (Map_set k e m) @ filter (\<lambda>j. j \<notin> fst ` set (Map_set k e m)) ?fs"
      by (rule Cons.IH)
    show ?thesis
    proof (cases "k \<in> fst ` set m")
      case True
      then have "filter (\<lambda>j. j \<notin> fst ` set m) (filter (\<lambda>j. j \<noteq> k) ?fs) =
                 filter (\<lambda>j. j \<notin> fst ` set m) ?fs"
        by (auto intro: filter_cong)
      then show ?thesis using True IH
        by (simp add: up ky keys_Map_set keyset_Map_set insert_absorb)
    next
      case False
      have "filter (\<lambda>j. j \<notin> insert k (fst ` set m)) ?fs =
            filter (\<lambda>j. j \<notin> fst ` set m) (filter (\<lambda>j. j \<noteq> k) ?fs)"
        by (auto intro: filter_cong)
      then show ?thesis using False IH
        by (simp add: up ky keys_Map_set keyset_Map_set)
    qed
  qed
qed

lemma map_of_merge_loop:
  "map_of (merge_loop m b) k = (case latest b k of None \<Rightarrow> map_of m k | Some el \<Rightarrow> Some el)"
proof (induction b arbitrary: m)
  case Nil
  show ?case by (simp add: keyed_def latest_def)
next
  case (Cons e b)
  show ?case
  proof (cases "truthy_id (el_id e)")
    case False
    then have "upsert e m = m" "keyed (e # b) = keyed b"
      by (auto simp: upsert_def keyed_def split: option.splits)
    then show ?thesis using Cons.IH[of m] by (simp add: latest_def)
  next
    case True
    then obtain j where j: "el_id e = Some j" "j \<noteq> []" by (cases "el_id e") auto
    then have up: "upsert e m = Map_set j e m" and ky: "keyed (e # b) = (j, e) # keyed b"
      by (simp_all add: upsert_def keyed_def)
    show ?thesis using Cons.IH[of "Map_set j e m"]
      by (auto simp: up ky latest_def map_of_Map_set map_add_def split: option.splits)
  qed
qed

lemma distinct_Map_set: "distinct (map fst m) \<Longrightarrow> distinct (map fst (Map_set k v m))"
  by (simp add: keys_Map_set)

lemma distinct_upsert: "distinct (map fst m) \<Longrightarrow> distinct (map fst (upsert el m))"
  by (auto simp: upsert_def distinct_Map_set split: option.splits)

lemma distinct_merge_loop: "distinct (map fst m) \<Longrightarrow> distinct (map fst (merge_loop m b))"
  by (induction b arbitrary: m) (simp_all add: distinct_upsert)

lemma alist_eqI:
  "map fst a = map fst b \<Longrightarrow> distinct (map fst a) \<Longrightarrow>
   (\<And>k. k \<in> fst ` set a \<Longrightarrow> map_of a k = map_of b k) \<Longrightarrow> a = b"
proof (induction a arbitrary: b)
  case Nil
  then show ?case by simp
next
  case (Cons p a)
  then obtain q b' where b: "b = q # b'" by (cases b) auto
  obtain k v where p: "p = (k, v)" by (cases p)
  obtain k' v' where q: "q = (k', v')" by (cases q)
  from Cons.prems(1) have kk: "k' = k" and keys: "map fst a = map fst b'" by (simp_all add: b p q)
  from Cons.prems(3)[of k] have vv: "v' = v" by (simp add: b p q kk)
  have "a = b'"
  proof (rule Cons.IH[OF keys])
    show "distinct (map fst a)" using Cons.prems(2) by simp
  next
    fix j assume j: "j \<in> fst ` set a"
    then have "j \<noteq> k" using Cons.prems(2) by (auto simp: p)
    moreover have "map_of (p # a) j = map_of b j" using j by (intro Cons.prems(3)) auto
    ultimately show "map_of a j = map_of b' j" by (simp add: b p q kk)
  qed
  then show ?case by (simp add: b p q kk vv)
qed

lemma first_seen_set: "set (first_seen ks) = set ks"
  by (induction ks) auto

lemma map_of_keymap:
  "map_of (map (\<lambda>(k, v). (k, f k v)) m) k = map_option (f k) (map_of m k)"
  by (induction m) auto

lemma map_of_tabulate:
  "map_of (map (\<lambda>k. (k, g k)) ks) k = (if k \<in> set ks then Some (g k) else None)"
  by (induction ks) auto

lemma latest_Some_iff: "(\<exists>el. latest b k = Some el) \<longleftrightarrow> k \<in> fst ` set (keyed b)"
  unfolding latest_def by (metis map_of_eq_None_iff not_Some_eq set_rev)

lemma keys_merged:
  "map fst (merged m b) =
   map fst m @ filter (\<lambda>k. k \<notin> fst ` set m) (first_seen (map fst (keyed b)))"
  by (simp add: merged_def comp_def case_prod_unfold)

lemma map_of_merged:
  "map_of (merged m b) k = (case latest b k of None \<Rightarrow> map_of m k | Some el \<Rightarrow> Some el)"
proof (cases "k \<in> fst ` set m")
  case True
  then obtain v where v: "map_of m k = Some v"
    by (metis map_of_eq_None_iff not_Some_eq)
  have "map_of (map (\<lambda>(k, v). (k, case latest b k of None \<Rightarrow> v | Some el \<Rightarrow> el)) m) k
        = Some (case latest b k of None \<Rightarrow> v | Some el \<Rightarrow> el)"
    by (simp add: map_of_keymap v)
  then show ?thesis
    by (auto simp: merged_def v map_add_def map_of_tabulate split: option.splits)
next
  case False
  then have n: "map_of m k = None" by (simp add: map_of_eq_None_iff)
  have n': "map_of (map (\<lambda>(k, v). (k, case latest b k of None \<Rightarrow> v | Some el \<Rightarrow> el)) m) k = None"
    by (simp add: map_of_keymap n)
  show ?thesis
  proof (cases "latest b k")
    case None
    then have "k \<notin> fst ` set (keyed b)" using latest_Some_iff by force
    then show ?thesis using None n n'
      by (auto simp: merged_def map_add_def map_of_tabulate first_seen_set split: option.splits)
  next
    case (Some el)
    then have "k \<in> fst ` set (keyed b)" using latest_Some_iff by blast
    then show ?thesis using Some n n' False
      by (auto simp: merged_def map_add_def map_of_tabulate first_seen_set split: option.splits)
  qed
qed

lemma merge_loop_merged: "distinct (map fst m) \<Longrightarrow> merge_loop m b = merged m b"
proof (rule alist_eqI)
  show "map fst (merge_loop m b) = map fst (merged m b)"
    by (simp only: keys_merge_loop keys_merged)
  show "distinct (map fst m) \<Longrightarrow> distinct (map fst (merge_loop m b))"
    by (rule distinct_merge_loop)
  show "\<And>k. map_of (merge_loop m b) k = map_of (merged m b) k"
    by (simp only: map_of_merge_loop map_of_merged)
qed

lemma set_Map_set: "set (Map_set k v m) \<subseteq> insert (k, v) (set m)"
  by (induction m) (auto split: if_splits)

lemma session_inv_upsert: "session_inv m \<Longrightarrow> session_inv (upsert el m)"
proof (cases "truthy_id (el_id el)")
  case False
  assume "session_inv m"
  moreover from False have "upsert el m = m" by (auto simp: upsert_def split: option.splits)
  ultimately show ?thesis by simp
next
  case True
  assume inv: "session_inv m"
  from True obtain k where k: "el_id el = Some k" "k \<noteq> []" by (cases "el_id el") auto
  then have up: "upsert el m = Map_set k el m" by (simp add: upsert_def)
  have "distinct (map fst (Map_set k el m))" using inv by (simp add: session_inv_def distinct_Map_set)
  moreover have "\<forall>p \<in> set (Map_set k el m). case p of (j, v) \<Rightarrow> j \<noteq> [] \<and> el_id v = Some j"
    using inv k set_Map_set[of k el m] by (auto simp: session_inv_def list_all_iff)
  ultimately show ?thesis by (simp add: up session_inv_def list_all_iff)
qed

lemma session_inv_merge_loop: "session_inv m \<Longrightarrow> session_inv (merge_loop m b)"
  by (induction b arbitrary: m) (simp_all add: session_inv_upsert)

lemma session_inv_values: "session_inv m \<Longrightarrow> el \<in> set (Map_values m) \<Longrightarrow> truthy_id (el_id el)"
  by (auto simp: session_inv_def list_all_iff Map_values_def)

text \<open>
  Claim C10. Every entry of the session map has a truthy id and is keyed by that id: the
  empty map has the invariant, and the merge and the load of persisted elements keep it.
  An element whose id is missing or empty is not among the elements the merge returns,
  and is still in the list the preview of its own pass renders.
\<close>

theorem session_map_id_invariant:
  assumes "session_inv m"
  shows "session_inv []
    \<and> session_inv (fst (mergeSessionElements m b))
    \<and> session_inv (loadPersisted m p)
    \<and> (\<forall>el. \<not> truthy_id (el_id el) \<longrightarrow> el \<notin> set (snd (mergeSessionElements m b)))
    \<and> set b \<subseteq> set (previewMerge bg b)"
proof -
  have 1: "session_inv []" by (simp add: session_inv_def)
  have 2: "session_inv (merge_loop m b)" using assms by (rule session_inv_merge_loop)
  have 3: "session_inv (loadPersisted m p)"
    using assms by (auto simp: loadPersisted_def session_inv_merge_loop split: option.splits)
  have 4: "\<forall>el. \<not> truthy_id (el_id el) \<longrightarrow> el \<notin> set (Map_values (merge_loop m b))"
    using session_inv_values[OF 2] by blast
  have 5: "set b \<subseteq> set (previewMerge bg b)" by (simp add: previewMerge_def)
  show ?thesis using 1 2 3 4 5 by (simp add: mergeSessionElements_def Let_def)
qed

lemma ToInt32_add: "ToInt32 (ToInt32 a + b) = ToInt32 (a + b)"
proof -
  have "((a + 2 ^ 31) mod 2 ^ 32 - 2 ^ 31 + b + 2 ^ 31) mod (2 ^ 32 :: int)
        = ((a + 2 ^ 31) mod 2 ^ 32 + b) mod 2 ^ 32" by simp
  also have "\<dots> = (a + 2 ^ 31 + b) mod 2 ^ 32" by (rule mod_add_left_eq)
  also have "a + 2 ^ 31 + b = a + b + 2 ^ 31" by simp
  finally show ?thesis unfolding ToInt32_def by simp
qed

lemma hash_id_sum: "hash_id (ToInt32 a) cs = ToInt32 (a + sum_list (map int cs))"
proof (induction cs arbitrary: a)
  case Nil
  show ?case by simp
next
  case (Cons c cs)
  have "hash_id (ToInt32 a) (c # cs) = hash_id (ToInt32 (a + int c)) cs"
    by (simp add: ToInt32_add)
  then show ?case by (simp add: Cons.IH add.assoc)
qed

lemma hash_loop_sum:
  "hash_loop (ToInt32 a) els = ToInt32 (a + sum_list (map id_sum (map el_id els)))"
proof (induction els arbitrary: a)
  case Nil
  show ?case by simp
next
  case (Cons el els)
  show ?case by (simp add: hash_id_sum Cons.IH id_sum_def add.assoc)
qed

lemma contentHash_sum: "contentHash els = ToInt32 (sum_mset (image_mset id_sum (mset (map el_id els))))"
proof -
  have "ToInt32 0 = 0" by (simp add: ToInt32_def)
  then have "contentHash els = hash_loop (ToInt32 0) els" by (simp add: contentHash_def)
  also have "\<dots> = ToInt32 (sum_list (map id_sum (map el_id els)))" by (simp only: hash_loop_sum) simp
  also have "sum_list (map id_sum (map el_id els)) = sum_mset (image_mset id_sum (mset (map el_id els)))"
    by (metis mset_map sum_mset_sum_list)
  finally show ?thesis .
qed

text \<open>
  Claim C4, as amended. The fingerprint does not depend on the order of the elements:
  two batches whose ids are the same up to order have the same fingerprint, so after one
  of them was rendered the gate does not re-render for the other.
\<close>

theorem contentHash_order_insensitive:
  assumes "mset (map el_id xs) = mset (map el_id ys)"
  shows "contentHash xs = contentHash ys \<and> \<not> renderGate (length xs) (contentHash xs) ys"
proof -
  have h: "contentHash xs = contentHash ys" by (simp only: contentHash_sum assms)
  have "length (map el_id xs) = length (map el_id ys)" using assms by (metis size_mset)
  then show ?thesis using h by (simp add: renderGate_def)
qed

text \<open>
  Claim C4 as stated fails: the batches a, b and b, a have the same ids in a different
  order and the same fingerprint, and the gate does not fire.
\<close>

theorem contentHash_reorder_counterexample:
  "contentHash [mk_el ''a'' 0 0, mk_el ''b'' 0 0] = contentHash [mk_el ''b'' 0 0, mk_el ''a'' 0 0]
   \<and> map el_id [mk_el ''a'' 0 0, mk_el ''b'' 0 0] \<noteq> map el_id [mk_el ''b'' 0 0, mk_el ''a'' 0 0]
   \<and> \<not> renderGate 2 (contentHash [mk_el ''a'' 0 0, mk_el ''b'' 0 0]) [mk_el ''b'' 0 0, mk_el ''a'' 0 0]"
  by (simp add: contentHash_def renderGate_def mk_el_def js_def ToInt32_def)

theorem contentHash_order_insensitive_witness:
  "mset (map el_id [mk_el ''ab'' 0 0, mk_el ''c'' 1 1]) = mset (map el_id [mk_el ''c'' 2 2, mk_el ''ab'' 3 3])
   \<and> contentHash [mk_el ''ab'' 0 0, mk_el ''c'' 1 1] = 294
   \<and> contentHash [mk_el ''c'' 2 2, mk_el ''ab'' 3 3] = 294"
  using contentHash_order_insensitive[of "[mk_el ''ab'' 0 0, mk_el ''c'' 1 1]" "[mk_el ''c'' 2 2, mk_el ''ab'' 3 3]"]
  by (simp add: contentHash_def mk_el_def js_def ToInt32_def)

text \<open>
  Claim C7. Merging the same batch a second time changes neither the map nor the returned
  list.
\<close>

theorem mergeSessionElements_idempotent:
  "mergeSessionElements (fst (mergeSessionElements m b)) b = mergeSessionElements m b"
  by (simp add: mergeSessionElements_def Let_def merge_loop_idem)

text \<open>
  Claim C1, as amended. The merge keeps every id that was in the map where it stood, with
  the batch's last element of that id in its place when the batch has one, and appends the
  ids new to the map in order of first appearance; the returned list is in that order.
\<close>

theorem mergeSessionElements_order:
  assumes "distinct (map fst m)"
  shows "mergeSessionElements m b = (merged m b, map snd (merged m b))"
  using assms by (simp add: mergeSessionElements_def Let_def Map_values_def merge_loop_merged)

text \<open>
  Claim C1 as stated fails: with a and b in the map and a batch that redraws a, the merge
  returns a before b, while the order of the claim (old-only ids first, then the batch;
  the order the preview merge produces) is b before a.
\<close>

theorem mergeSessionElements_order_counterexample:
  "snd (mergeSessionElements [(js ''a'', mk_el ''a'' 0 0), (js ''b'', mk_el ''b'' 0 0)] [mk_el ''a'' 5 5])
     = [mk_el ''a'' 5 5, mk_el ''b'' 0 0]
   \<and> previewMerge (Map_values [(js ''a'', mk_el ''a'' 0 0), (js ''b'', mk_el ''b'' 0 0)]) [mk_el ''a'' 5 5]
     = [mk_el ''b'' 0 0, mk_el ''a'' 5 5]"
  by (simp add: mergeSessionElements_def Let_def Map_values_def previewMerge_def upsert_def mk_el_def js_def)

theorem mergeSessionElements_order_witness:
  "distinct (map fst [(js ''a'', mk_el ''a'' 0 0), (js ''b'', mk_el ''b'' 0 0)])
   \<and> mergeSessionElements [(js ''a'', mk_el ''a'' 0 0), (js ''b'', mk_el ''b'' 0 0)]
        [mk_el ''c'' 1 1, mk_el ''a'' 5 5, mk_el ''c'' 2 2]
     = ([(js ''a'', mk_el ''a'' 5 5), (js ''b'', mk_el ''b'' 0 0), (js ''c'', mk_el ''c'' 2 2)],
        [mk_el ''a'' 5 5, mk_el ''b'' 0 0, mk_el ''c'' 2 2])"
  using mergeSessionElements_order[of "[(js ''a'', mk_el ''a'' 0 0), (js ''b'', mk_el ''b'' 0 0)]"
        "[mk_el ''c'' 1 1, mk_el ''a'' 5 5, mk_el ''c'' 2 2]"]
  by (simp add: merged_def latest_def keyed_def mk_el_def js_def)

theorem session_map_id_invariant_witness:
  "session_inv [(js ''a'', mk_el ''a'' 0 0)]
   \<and> session_inv (fst (mergeSessionElements [(js ''a'', mk_el ''a'' 0 0)] [mk_el [] 1 1, mk_el ''b'' 2 2]))
   \<and> session_inv (loadPersisted [(js ''a'', mk_el ''a'' 0 0)] (Some [mk_el ''c'' 3 3]))
   \<and> mk_el [] 1 1 \<notin> set (snd (mergeSessionElements [(js ''a'', mk_el ''a'' 0 0)] [mk_el [] 1 1, mk_el ''b'' 2 2]))
   \<and> mk_el [] 1 1 \<in> set (previewMerge [mk_el ''a'' 0 0] [mk_el [] 1 1, mk_el ''b'' 2 2])"
proof -
  have inv: "session_inv [(js ''a'', mk_el ''a'' 0 0)]"
    by (simp add: session_inv_def mk_el_def js_def)
  have "\<not> truthy_id (el_id (mk_el [] 1 1))" by (simp add: mk_el_def js_def)
  with session_map_id_invariant[OF inv, of "[mk_el [] 1 1, mk_el ''b'' 2 2]"
      "Some [mk_el ''c'' 3 3]" "[mk_el ''a'' 0 0]"] inv
  show ?thesis by auto
qed

section \<open>The edit diff: proofs\<close>














section \<open>The JSON machine: proofs\<close>

lemma bottom_push: "bottom st xs \<Longrightarrow> bottom (f # st) xs"
  by (simp add: bottom_def)

lemma bottom_close_value: "bottom st xs \<Longrightarrow> bottom_extends xs (close_value v st)"
proof (induction v st rule: close_value.induct)
  case (2 v ys st)
  then show ?case by (cases "st = []") (auto simp: bottom_def)
next
  case (3 v ms k st)
  then show ?case by (cases "st = []") (auto simp: bottom_def)
qed (auto simp: bottom_def)

lemma bottom_tail: "bottom (f # st) xs \<Longrightarrow> st \<noteq> [] \<Longrightarrow> bottom st xs"
  by (simp add: bottom_def)

lemma bottom_close_array: "bottom st xs \<Longrightarrow> bottom_extends xs (close_array st)"
proof (cases st)
  case Nil
  then show ?thesis by simp
next
  case (Cons f r)
  assume b: "bottom st xs"
  show ?thesis
  proof (cases f)
    case (FArr ys)
    show ?thesis
    proof (cases "r = []")
      case True
      then show ?thesis using b Cons FArr by (simp add: bottom_def)
    next
      case False
      then have "bottom r xs" using b Cons by (simp add: bottom_def)
      then show ?thesis using Cons FArr by (simp add: bottom_close_value)
    qed
  next
    case (FObj ms k)
    then show ?thesis using Cons by simp
  qed
qed

lemma bottom_close_object: "bottom st xs \<Longrightarrow> bottom_extends xs (close_object st)"
proof (cases st)
  case Nil
  then show ?thesis by simp
next
  case (Cons f r)
  assume b: "bottom st xs"
  show ?thesis
  proof (cases f)
    case (FArr ys)
    then show ?thesis using Cons by simp
  next
    case (FObj ms k)
    then have "r \<noteq> []" using b Cons by (auto simp: bottom_def)
    then have "bottom r xs" using b Cons by (simp add: bottom_def)
    then show ?thesis using Cons FObj by (cases k) (simp_all add: bottom_close_value)
  qed
qed

lemma bottom_start_value: "bottom st xs \<Longrightarrow> bottom_extends xs (start_value c st)"
  by (simp add: start_value_def bottom_push)

lemma bottom_step_after: "bottom st xs \<Longrightarrow> bottom_extends xs (step_after c st)"
  by (auto simp: step_after_def bottom_close_array bottom_close_object split: list.splits frame.splits)

lemma bottom_close_string: "bottom st xs \<Longrightarrow> bottom_extends xs (close_string s k st)"
proof (cases k)
  case False
  assume "bottom st xs"
  then show ?thesis using False by (simp add: bottom_close_value)
next
  case True
  assume b: "bottom st xs"
  show ?thesis
  proof (cases st)
    case Nil
    then show ?thesis using True by simp
  next
    case (Cons f r)
    then show ?thesis using True b by (cases f) (auto simp: bottom_def)
  qed
qed

lemma bottom_step_mode: "bottom st xs \<Longrightarrow> bottom_extends xs (step_mode m st c)"
proof (cases m)
  case (InNum ns lit)
  assume b: "bottom st xs"
  have cv: "bottom_extends xs (close_value (JNum lit) st)" using b by (rule bottom_close_value)
  show ?thesis
  proof (cases "close_value (JNum lit) st")
    case (PS m' st')
    then have "bottom st' xs" using cv by simp
    then show ?thesis using InNum PS b by (auto simp: bottom_step_after split: option.splits)
  next
    case (Done v)
    then show ?thesis using InNum b cv by (auto simp: step_done_def split: option.splits)
  next
    case Err
    then show ?thesis using InNum b by (auto split: option.splits)
  qed
qed (auto simp: bottom_start_value bottom_close_array bottom_close_object bottom_step_after
      bottom_close_string bottom_close_value split: option.splits list.splits)

lemma bottom_extends_step: "bottom_extends xs \<sigma> \<Longrightarrow> bottom_extends xs (step \<sigma> c)"
proof (cases \<sigma>)
  case (PS m st)
  assume "bottom_extends xs \<sigma>"
  then show ?thesis using PS by (simp add: bottom_step_mode)
next
  case (Done v)
  assume "bottom_extends xs \<sigma>"
  then show ?thesis using Done by (simp add: step_done_def)
next
  case Err
  then show ?thesis by simp
qed

lemma run_Nil: "run \<sigma> [] = \<sigma>"
  by (simp add: run_def)

lemma run_Cons: "run \<sigma> (c # cs) = run (step \<sigma> c) cs"
  by (simp add: run_def)

lemma run_append: "run \<sigma> (s @ t) = run (run \<sigma> s) t"
  by (simp add: run_def)

lemma bottom_extends_run: "bottom_extends xs \<sigma> \<Longrightarrow> bottom_extends xs (run \<sigma> s)"
  by (induction s arbitrary: \<sigma>) (simp_all add: run_Nil run_Cons bottom_extends_step)

lemma bottom_extends_finish:
  "bottom_extends xs \<sigma> \<Longrightarrow> finish \<sigma> = Inr v \<Longrightarrow> \<exists>ys. v = JArr ys \<and> prefix xs ys"
proof (cases \<sigma>)
  case (PS m st)
  assume "bottom_extends xs \<sigma>" "finish \<sigma> = Inr v"
  then show ?thesis using PS by (cases m; cases st) (auto simp: bottom_def)
next
  case (Done w)
  assume "bottom_extends xs \<sigma>" "finish \<sigma> = Inr v"
  then show ?thesis using Done by (cases w) auto
next
  case Err
  assume "finish \<sigma> = Inr v"
  then show ?thesis using Err by simp
qed

lemma run_open_bracket: "run (PS Value []) (91 # t) = run (PS ValueOrEnd [FArr []]) t"
  by (simp add: run_Cons json_ws_def start_value_def)

lemma bottom_extends_init: "bottom_extends [] (PS ValueOrEnd [FArr []])"
  by (simp add: bottom_def)

lemma JSON_parse_array:
  "JSON_parse (91 # t) = Inr v \<Longrightarrow> \<exists>xs. v = JArr xs"
proof -
  assume "JSON_parse (91 # t) = Inr v"
  then have "finish (run (PS ValueOrEnd [FArr []]) t) = Inr v"
    by (simp add: JSON_parse_def run_open_bracket)
  with bottom_extends_run[OF bottom_extends_init] show ?thesis
    using bottom_extends_finish by blast
qed

section \<open>The decoder: proofs\<close>

lemmas decoder_eval = parsePartialElements_def Let_def trim_def js_def js_whitespace_def
  startsWith_def exact_def nonpayload_regex_def ignore_case_def fold_case_def includes_str_def
  lastIndexOf_def substring_def JSON_parse_def run_def json_ws_def is_digit_def start_value_def
  step_after_def step_done_def escape_value_def hex_value_def

lemma startsWith_bracket: "startsWith s (js ''['') \<longleftrightarrow> (\<exists>t. s = 91 # t)"
  by (cases s) (auto simp: startsWith_def js_def exact_def)

lemma substring_bracket:
  "0 \<le> l \<Longrightarrow> \<exists>u. substring (91 # t) 0 (nat (l + 1)) @ js '']'' = 91 # u"
proof -
  assume "0 \<le> l"
  then obtain n where "nat (l + 1) = Suc n" by (cases "nat (l + 1)") auto
  then show ?thesis by (simp add: substring_def)
qed

lemma parsePartialElements_array: "\<exists>xs. parsePartialElements str = Inr (JArr xs)"
proof -
  define s where "s = (case str of Some t \<Rightarrow> trim t | None \<Rightarrow> [])"
  show ?thesis
  proof (cases "s = [] \<or> \<not> startsWith s (js ''['')")
    case True
    then show ?thesis by (auto simp: parsePartialElements_def Let_def s_def)
  next
    case False
    then obtain t where t: "s = 91 # t" by (auto simp: startsWith_bracket)
    show ?thesis
    proof (cases "nonpayload_regex s \<or> (length s > 300 \<and> \<not> includes_str s (js ''type''))")
      case True
      then show ?thesis using False
        by (simp add: parsePartialElements_def Let_def s_def[symmetric])
    next
      case np: False
      show ?thesis
      proof (cases "JSON_parse s")
        case (Inr v)
        then obtain xs where "v = JArr xs" using JSON_parse_array t by blast
        then show ?thesis using False np Inr
          by (simp add: parsePartialElements_def Let_def s_def[symmetric])
      next
        case (Inl e)
        show ?thesis
        proof (cases "lastIndexOf s (U CHR ''}'') < 0")
          case True
          then show ?thesis using False np Inl
            by (simp add: parsePartialElements_def Let_def s_def[symmetric])
        next
          case l: False
          then obtain u where u: "substring s 0 (nat (lastIndexOf s (U CHR ''}'') + 1)) @ js '']'' = 91 # u"
            using substring_bracket[of "lastIndexOf s (U CHR ''}'')" t] t by auto
          show ?thesis
          proof (cases "JSON_parse (91 # u)")
            case Inl2: (Inl e')
            then show ?thesis using False np Inl l u
              by (simp add: parsePartialElements_def Let_def s_def[symmetric])
          next
            case Inr2: (Inr v)
            then obtain xs where "v = JArr xs" using JSON_parse_array by blast
            then show ?thesis using False np Inl l u Inr2
              by (simp add: parsePartialElements_def Let_def s_def[symmetric])
          qed
        qed
      qed
    qed
  qed
qed

lemma parsePartialElements_rejects:
  assumes "s = [] \<or> \<not> startsWith s (js ''['') \<or> nonpayload_regex s
     \<or> (length s > 300 \<and> \<not> includes_str s (js ''type''))"
    and "(case str of Some t \<Rightarrow> trim t | None \<Rightarrow> []) = s"
  shows "parsePartialElements str = Inr (JArr [])"
proof (cases "s = [] \<or> \<not> startsWith s (js ''['')")
  case True
  then show ?thesis unfolding parsePartialElements_def Let_def assms(2) by (simp only: if_True)
next
  case False
  then have "nonpayload_regex s \<or> (length s > 300 \<and> \<not> includes_str s (js ''type''))"
    using assms(1) by blast
  then show ?thesis unfolding parsePartialElements_def Let_def assms(2)
    using False by (simp only: if_True if_False)
qed

text \<open>
  Claim C5. For every input, a string or \<open>undefined\<close>, the decoder returns an array and
  raises nothing. An input whose trimmed text does not begin with \<open>[\<close> (the empty text
  included) gives the empty array, and so does one whose trimmed text matches the
  non-payload patterns or is longer than 300 code units without containing \<open>type\<close>.
\<close>

theorem parsePartialElements_total:
  "(\<exists>xs. parsePartialElements str = Inr (JArr xs))
   \<and> parsePartialElements None = Inr (JArr [])
   \<and> (\<not> startsWith (trim s) (js ''['') \<longrightarrow> parsePartialElements (Some s) = Inr (JArr []))
   \<and> (nonpayload_regex (trim s) \<or> (length (trim s) > 300 \<and> \<not> includes_str (trim s) (js ''type''))
        \<longrightarrow> parsePartialElements (Some s) = Inr (JArr []))"
proof -
  have 1: "\<exists>xs. parsePartialElements str = Inr (JArr xs)" by (rule parsePartialElements_array)
  have 2: "parsePartialElements None = Inr (JArr [])"
    by (rule parsePartialElements_rejects[of "[]"]) simp_all
  have 3: "\<not> startsWith (trim s) (js ''['') \<longrightarrow> parsePartialElements (Some s) = Inr (JArr [])"
    using parsePartialElements_rejects[of "trim s" "Some s"] by simp
  have 4: "nonpayload_regex (trim s) \<or> (length (trim s) > 300 \<and> \<not> includes_str (trim s) (js ''type''))
        \<longrightarrow> parsePartialElements (Some s) = Inr (JArr [])"
    using parsePartialElements_rejects[of "trim s" "Some s"] by auto
  show ?thesis using 1 2 3 4 by blast
qed

theorem parsePartialElements_total_witness:
  "\<not> startsWith (trim (js ''  {\"id\":\"1\"} '')) (js ''['')
   \<and> parsePartialElements (Some (js ''  {\"id\":\"1\"} '')) = Inr (JArr [])
   \<and> nonpayload_regex (trim (js ''[{\"id\":\"1\"}] <!doctype html>''))
   \<and> parsePartialElements (Some (js ''[{\"id\":\"1\"}] <!doctype html>'')) = Inr (JArr [])"
proof -
  have 1: "\<not> startsWith (trim (js ''  {\"id\":\"1\"} '')) (js ''['')"
    by (simp add: trim_def js_def js_whitespace_def startsWith_def exact_def)
  have 2: "nonpayload_regex (trim (js ''[{\"id\":\"1\"}] <!doctype html>''))"
    by (simp add: trim_def js_def js_whitespace_def nonpayload_regex_def ignore_case_def fold_case_def)
  from parsePartialElements_total[of None "js ''  {\"id\":\"1\"} ''"] 1
  have 3: "parsePartialElements (Some (js ''  {\"id\":\"1\"} '')) = Inr (JArr [])" by blast
  from parsePartialElements_total[of None "js ''[{\"id\":\"1\"}] <!doctype html>''"] 2
  have 4: "parsePartialElements (Some (js ''[{\"id\":\"1\"}] <!doctype html>'')) = Inr (JArr [])" by blast
  show ?thesis using 1 2 3 4 by blast
qed

lemma excludeIncompleteLastItem_one: "excludeIncompleteLastItem [x] = []"
  by (simp add: excludeIncompleteLastItem_def)

lemma excludeIncompleteLastItem_many: "excludeIncompleteLastItem (xs @ [y, z]) = xs @ [y]"
  by (simp add: excludeIncompleteLastItem_def butlast_append)

text \<open>
  Claim C6. On the text whose second record is cut off, the decoder returns exactly the
  first record, with id 1, and the non-final path yields no viewport and no drawable: a
  list of one element is discarded whole, a longer list loses its last element.
\<close>

theorem partial_batch_truncation:
  "parsePartialElements (Some (js
      ''[{\"id\":\"1\",\"type\":\"rectangle\",\"x\":0,\"y\":0,\"width\":10,\"height\":10},{\"id\":\"2\",\"type\":\"rec''))
     = Inr (JArr [JObj [(js ''id'', JStr (js ''1'')), (js ''type'', JStr (js ''rectangle'')),
          (js ''x'', JNum (js ''0'')), (js ''y'', JNum (js ''0'')),
          (js ''width'', JNum (js ''10'')), (js ''height'', JNum (js ''10''))]])
   \<and> partialPass (Some (js
      ''[{\"id\":\"1\",\"type\":\"rectangle\",\"x\":0,\"y\":0,\"width\":10,\"height\":10},{\"id\":\"2\",\"type\":\"rec''))
     = Inr (None, [])
   \<and> excludeIncompleteLastItem [x] = []
   \<and> excludeIncompleteLastItem (xs @ [y, z]) = xs @ [y]"
proof -
  have 1: "parsePartialElements (Some (js
      ''[{\"id\":\"1\",\"type\":\"rectangle\",\"x\":0,\"y\":0,\"width\":10,\"height\":10},{\"id\":\"2\",\"type\":\"rec''))
     = Inr (JArr [JObj [(js ''id'', JStr (js ''1'')), (js ''type'', JStr (js ''rectangle'')),
          (js ''x'', JNum (js ''0'')), (js ''y'', JNum (js ''0'')),
          (js ''width'', JNum (js ''10'')), (js ''height'', JNum (js ''10''))]])"
    by (simp add: decoder_eval)
  have 2: "partialPass (Some (js
      ''[{\"id\":\"1\",\"type\":\"rectangle\",\"x\":0,\"y\":0,\"width\":10,\"height\":10},{\"id\":\"2\",\"type\":\"rec''))
     = Inr (None, [])"
    by (simp add: partialPass_def decoded_def 1 excludeIncompleteLastItem_def
        extractViewportAndElements_def)
  show ?thesis by (intro conjI 1 2 excludeIncompleteLastItem_one excludeIncompleteLastItem_many)
qed

lemma matches_at_append: "matches_at ps m \<Longrightarrow> matches_at ps (m @ b)"
  by (induction ps m rule: matches_at.induct) auto

lemma search_append_left: "search ps t \<Longrightarrow> search ps (a @ t)"
  by (induction a) auto

lemma search_matches: "matches_at ps t \<Longrightarrow> search ps t"
  by (cases t) auto

lemma search_inside: "matches_at ps m \<Longrightarrow> search ps (a @ m @ b)"
  by (intro search_append_left search_matches matches_at_append)

text \<open>
  Claim C9. A complete, valid JSON array of one well-formed record whose text field is
  \<open>Error handling\<close> parses, and the decoder returns the empty array for it: the filter
  rejects every text that contains \<open>Standalone\<close>, \<open>not found\<close>, \<open><!DOCTYPE\<close> in any
  letter case, or \<open>error\<close> in any letter case followed by white space, wherever it stands.
\<close>

theorem nonpayload_filter_drops_valid_payload:
  "JSON_parse (js ''[{\"id\":\"1\",\"type\":\"text\",\"x\":0,\"y\":0,\"width\":100,\"height\":20,\"text\":\"Error handling\"}]'')
     = Inr (JArr [JObj [(js ''id'', JStr (js ''1'')), (js ''type'', JStr (js ''text'')),
          (js ''x'', JNum (js ''0'')), (js ''y'', JNum (js ''0'')),
          (js ''width'', JNum (js ''100'')), (js ''height'', JNum (js ''20'')),
          (js ''text'', JStr (js ''Error handling''))]])
   \<and> parsePartialElements (Some (js ''[{\"id\":\"1\",\"type\":\"text\",\"x\":0,\"y\":0,\"width\":100,\"height\":20,\"text\":\"Error handling\"}]''))
     = Inr (JArr [])
   \<and> (nonpayload_regex (trim s) \<longrightarrow> parsePartialElements (Some s) = Inr (JArr []))
   \<and> nonpayload_regex (a @ js ''sTaNdAlOnE'' @ b)
   \<and> nonpayload_regex (a @ js ''NOT found'' @ b)
   \<and> nonpayload_regex (a @ js ''<!doctype'' @ b)
   \<and> (js_whitespace w \<longrightarrow> nonpayload_regex (a @ js ''ERROR'' @ w # b))"
proof -
  have 1: "JSON_parse (js ''[{\"id\":\"1\",\"type\":\"text\",\"x\":0,\"y\":0,\"width\":100,\"height\":20,\"text\":\"Error handling\"}]'')
     = Inr (JArr [JObj [(js ''id'', JStr (js ''1'')), (js ''type'', JStr (js ''text'')),
          (js ''x'', JNum (js ''0'')), (js ''y'', JNum (js ''0'')),
          (js ''width'', JNum (js ''100'')), (js ''height'', JNum (js ''20'')),
          (js ''text'', JStr (js ''Error handling''))]])"
    by (simp add: decoder_eval)
  have 2: "parsePartialElements (Some (js ''[{\"id\":\"1\",\"type\":\"text\",\"x\":0,\"y\":0,\"width\":100,\"height\":20,\"text\":\"Error handling\"}]''))
     = Inr (JArr [])"
    by (rule parsePartialElements_rejects[where s =
        "js ''[{\"id\":\"1\",\"type\":\"text\",\"x\":0,\"y\":0,\"width\":100,\"height\":20,\"text\":\"Error handling\"}]''"])
       (simp_all add: trim_def js_def js_whitespace_def nonpayload_regex_def ignore_case_def fold_case_def)
  have 3: "nonpayload_regex (trim s) \<longrightarrow> parsePartialElements (Some s) = Inr (JArr [])"
    using parsePartialElements_rejects[of "trim s" "Some s"] by simp
  have "matches_at (map ignore_case (js ''Standalone'')) (js ''sTaNdAlOnE'')" by (simp add: js_def ignore_case_def fold_case_def)
  then have 4: "nonpayload_regex (a @ js ''sTaNdAlOnE'' @ b)"
    unfolding nonpayload_regex_def using search_inside by blast
  have "matches_at (map ignore_case (js ''not found'')) (js ''NOT found'')" by (simp add: js_def ignore_case_def fold_case_def)
  then have 5: "nonpayload_regex (a @ js ''NOT found'' @ b)"
    unfolding nonpayload_regex_def using search_inside by blast
  have "matches_at (map ignore_case (js ''<!DOCTYPE'')) (js ''<!doctype'')" by (simp add: js_def ignore_case_def fold_case_def)
  then have 6: "nonpayload_regex (a @ js ''<!doctype'' @ b)"
    unfolding nonpayload_regex_def using search_inside by blast
  have 7: "js_whitespace w \<longrightarrow> nonpayload_regex (a @ js ''ERROR'' @ w # b)"
  proof
    assume w: "js_whitespace w"
    have "matches_at (map ignore_case (js ''error'') @ [js_whitespace]) (js ''ERROR'' @ [w])"
      using w by (simp add: js_def ignore_case_def fold_case_def)
    then have "search (map ignore_case (js ''error'') @ [js_whitespace]) (a @ (js ''ERROR'' @ [w]) @ b)"
      by (rule search_inside)
    then show "nonpayload_regex (a @ js ''ERROR'' @ w # b)"
      by (simp add: nonpayload_regex_def)
  qed
  show ?thesis by (intro conjI 1 2 3 4 5 6 7)
qed

theorem nonpayload_filter_drops_valid_payload_witness:
  "nonpayload_regex (trim (js ''[{\"id\":\"e\",\"text\":\"page not found\"}]''))
   \<and> parsePartialElements (Some (js ''[{\"id\":\"e\",\"text\":\"page not found\"}]'')) = Inr (JArr [])
   \<and> js_whitespace 9
   \<and> nonpayload_regex (js ''[\"'' @ js ''ERROR'' @ 9 # js ''\"]'')"
proof -
  have 1: "nonpayload_regex (trim (js ''[{\"id\":\"e\",\"text\":\"page not found\"}]''))"
    by (simp add: trim_def js_def js_whitespace_def nonpayload_regex_def ignore_case_def fold_case_def)
  have 2: "js_whitespace 9" by (simp add: js_whitespace_def)
  from nonpayload_filter_drops_valid_payload[of "js ''[{\"id\":\"e\",\"text\":\"page not found\"}]''"
      "js ''[\"''" "js ''\"]''" 9] 1 2
  show ?thesis by blast
qed


section \<open>Prefixes of a payload: proofs\<close>

lemma rtrim_prefix: "prefix (rev (dropWhile P (rev t))) t"
proof -
  have "suffix (dropWhile P (rev t)) (rev t)" by (rule suffix_dropWhile)
  then show ?thesis by (simp add: suffix_to_prefix)
qed

lemma rtrim_append:
  "prefix (rev (dropWhile P (rev t))) (rev (dropWhile P (rev (t @ r))))"
proof (cases "\<forall>x \<in> set r. P x")
  case True
  then have "dropWhile P (rev r @ rev t) = dropWhile P (rev t)"
    by (intro dropWhile_append2) simp
  then show ?thesis by simp
next
  case False
  then obtain x where "x \<in> set (rev r)" "\<not> P x" by auto
  then have "dropWhile P (rev r @ rev t) = dropWhile P (rev r) @ rev t"
    by (rule dropWhile_append1)
  then have "rev (dropWhile P (rev (t @ r))) = t @ rev (dropWhile P (rev r))" by simp
  moreover have "prefix (rev (dropWhile P (rev t))) t" by (rule rtrim_prefix)
  ultimately show ?thesis by (simp add: prefix_def) (metis append.assoc)
qed

lemma trim_prefix:
  assumes "prefix p q"
  shows "trim p = [] \<or> prefix (trim p) (trim q)"
proof (cases "dropWhile js_whitespace p = []")
  case True
  then have "trim p = []" unfolding trim_def by (simp only: rev.simps dropWhile.simps)
  then show ?thesis by simp
next
  case False
  from assms obtain r where q: "q = p @ r" by (auto simp: prefix_def)
  from False obtain x where "x \<in> set p" "\<not> js_whitespace x"
    by (metis dropWhile_eq_Nil_conv)
  then have "dropWhile js_whitespace q = dropWhile js_whitespace p @ r"
    unfolding q by (rule dropWhile_append1)
  then show ?thesis
    unfolding trim_def using rtrim_append[of js_whitespace "dropWhile js_whitespace p" r] by simp
qed

lemma trim_last: "trim s \<noteq> [] \<Longrightarrow> \<not> js_whitespace (last (trim s))"
proof -
  assume ne: "trim s \<noteq> []"
  let ?d = "dropWhile js_whitespace (rev (dropWhile js_whitespace s))"
  from ne have "?d \<noteq> []" by (simp add: trim_def)
  then have "\<not> js_whitespace (hd ?d)" by (rule hd_dropWhile)
  moreover have "last (trim s) = hd ?d" using \<open>?d \<noteq> []\<close> by (simp add: trim_def last_rev)
  ultimately show ?thesis by simp
qed

lemma json_ws_js: "json_ws c \<Longrightarrow> js_whitespace c"
  by (auto simp: json_ws_def js_whitespace_def)

lemma search_Nil: "search [] s"
  by (cases s) auto

lemma search_append_right: "search ps s \<Longrightarrow> search ps (s @ r)"
proof (induction s)
  case Nil
  then have "ps = []" by (cases ps) auto
  then show ?case by (simp add: search_Nil)
next
  case (Cons c s)
  then show ?case using matches_at_append[of ps "c # s" r] by auto
qed

lemma nonpayload_regex_prefix: "prefix s t \<Longrightarrow> nonpayload_regex s \<Longrightarrow> nonpayload_regex t"
  by (auto simp: nonpayload_regex_def prefix_def intro: search_append_right)

lemma lastIndexOf_from_append:
  "lastIndexOf_from (s @ r) c i f = lastIndexOf_from r c (i + length s) (lastIndexOf_from s c i f)"
  by (induction s arbitrary: i f) auto

lemma lastIndexOf_from_ge: "f < int i \<Longrightarrow> f \<le> lastIndexOf_from s c i f"
proof (induction s arbitrary: i f)
  case Nil
  show ?case by simp
next
  case (Cons x s)
  have "(if x = c then int i else f) < int (Suc i)" using Cons.prems by simp
  from Cons.IH[OF this] show ?case using Cons.prems by (auto split: if_splits)
qed

lemma lastIndexOf_from_lt: "f < int i \<Longrightarrow> lastIndexOf_from s c i f < int (i + length s)"
proof (induction s arbitrary: i f)
  case Nil
  then show ?case by simp
next
  case (Cons x s)
  have "(if x = c then int i else f) < int (Suc i)" using Cons.prems by simp
  from Cons.IH[OF this] show ?case by simp
qed

lemma lastIndexOf_from_hit:
  "f < int i \<Longrightarrow> f < lastIndexOf_from s c i f \<Longrightarrow>
   int i \<le> lastIndexOf_from s c i f \<and> s ! nat (lastIndexOf_from s c i f - int i) = c"
proof (induction s arbitrary: i f)
  case Nil
  then show ?case by simp
next
  case (Cons x s)
  let ?f' = "if x = c then int i else f"
  let ?r = "lastIndexOf_from s c (Suc i) ?f'"
  have lt: "?f' < int (Suc i)" using Cons.prems(1) by simp
  have r: "lastIndexOf_from (x # s) c i f = ?r" by simp
  show ?case
  proof (cases "?f' < ?r")
    case True
    from Cons.IH[OF lt True] have a: "int (Suc i) \<le> ?r" and b: "s ! nat (?r - int (Suc i)) = c"
      by auto
    from a have "nat (?r - int i) = Suc (nat (?r - int (Suc i)))" by simp
    then show ?thesis using a b r by simp
  next
    case False
    with lastIndexOf_from_ge[OF lt, of s c] have eq: "?r = ?f'" by simp
    with Cons.prems(2) r have "x = c" by (auto split: if_splits)
    then show ?thesis using eq r by simp
  qed
qed

lemma lastIndexOf_prefix_mono: "prefix s t \<Longrightarrow> lastIndexOf s c \<le> lastIndexOf t c"
proof -
  assume "prefix s t"
  then obtain r where t: "t = s @ r" by (auto simp: prefix_def)
  have "lastIndexOf_from s c 0 (- 1) < int (0 + length s)" by (rule lastIndexOf_from_lt) simp
  then show ?thesis
    unfolding lastIndexOf_def t lastIndexOf_from_append
    by (intro lastIndexOf_from_ge) simp
qed

lemma lastIndexOf_bound: "lastIndexOf s c < int (length s)"
  using lastIndexOf_from_lt[of "- 1" 0 s c] by (simp add: lastIndexOf_def)

lemma cut_prefix: "prefix (cut_at_last_brace s) s"
  by (simp add: cut_at_last_brace_def substring_def take_is_prefix)

lemma cut_mono:
  assumes "prefix s t"
  shows "prefix (cut_at_last_brace s) (cut_at_last_brace t)"
proof -
  let ?n = "nat (lastIndexOf s 125 + 1)" and ?m = "nat (lastIndexOf t 125 + 1)"
  have nm: "?n \<le> ?m" using lastIndexOf_prefix_mono[OF assms, of 125] by simp
  have nl: "?n \<le> length s" using lastIndexOf_bound[of s 125] by simp
  from assms obtain r where t: "t = s @ r" by (auto simp: prefix_def)
  have "take ?n s = take ?n t" using nl by (simp add: t)
  moreover have "prefix (take ?n t) (take ?m t)"
    using nm by (metis min.absorb1 take_is_prefix take_take)
  ultimately show ?thesis by (simp add: cut_at_last_brace_def substring_def)
qed

lemma cut_ends_with_brace:
  assumes "0 \<le> lastIndexOf s 125"
  shows "\<exists>x. cut_at_last_brace s = x @ [125]"
proof -
  let ?l = "lastIndexOf s 125"
  have hit: "0 \<le> ?l \<and> s ! nat (?l - 0) = 125"
    using lastIndexOf_from_hit[of "- 1" 0 s 125] assms by (simp add: lastIndexOf_def)
  have lt: "nat ?l < length s" using lastIndexOf_bound[of s 125] assms by simp
  have "nat (?l + 1) = Suc (nat ?l)" using assms by simp
  then have "cut_at_last_brace s = take (nat ?l) s @ [s ! nat ?l]"
    using lt by (simp add: cut_at_last_brace_def substring_def take_Suc_conv_app_nth)
  then show ?thesis using hit by simp
qed

lemma close_value_not_num: "\<not> in_num (close_value v st)"
  by (induction v st rule: close_value.induct) auto

lemma close_object_not_num: "\<not> in_num (close_object st)"
  by (induction st rule: close_object.induct) (auto simp: close_value_not_num)

lemma step_after_brace_not_num: "\<not> in_num (step_after 125 st)"
  by (simp add: step_after_def json_ws_def close_object_not_num)

lemma close_string_not_num: "\<not> in_num (close_string s k st)"
  by (induction s k st rule: close_string.induct) (auto simp: close_value_not_num)

lemma step_mode_brace_not_num: "\<not> in_num (step_mode m st 125)"
proof (cases m)
  case (InNum ns lit)
  have "num_next ns 125 = None" by (cases ns) (simp_all add: is_digit_def)
  then show ?thesis using InNum
    by (auto simp: step_after_brace_not_num step_done_def json_ws_def split: pstate.splits)
next
  case (InLit rest v)
  then show ?thesis by (auto simp: close_value_not_num split: list.splits)
qed (auto simp: json_ws_def start_value_def is_digit_def close_object_not_num escape_value_def
       hex_value_def close_string_not_num step_after_brace_not_num split: option.splits)

lemma step_brace_not_num: "\<not> in_num (step \<sigma> 125)"
  by (cases \<sigma>) (simp_all add: step_mode_brace_not_num step_done_def)

lemma finish_close_value: "st \<noteq> [] \<Longrightarrow> finish (close_value v st) = Inl SyntaxError"
  by (induction v st rule: close_value.induct) auto

lemma finish_close_array:
  "finish (close_array st) = Inr v \<Longrightarrow> \<exists>xs. st = [FArr xs] \<and> v = JArr xs"
proof (cases st)
  case Nil
  assume "finish (close_array st) = Inr v"
  then show ?thesis using Nil by simp
next
  case (Cons f r)
  assume a: "finish (close_array st) = Inr v"
  show ?thesis
  proof (cases f)
    case (FArr ys)
    show ?thesis
    proof (cases "r = []")
      case True
      then show ?thesis using a Cons FArr by simp
    next
      case False
      then show ?thesis using a Cons FArr by (simp add: finish_close_value)
    qed
  next
    case (FObj ms k)
    then show ?thesis using a Cons by simp
  qed
qed

lemma finish_close_string: "st \<noteq> [] \<Longrightarrow> finish (close_string s k st) = Inl SyntaxError"
proof (cases k)
  case True
  assume "st \<noteq> []"
  then show ?thesis using True by (cases st; cases "hd st") auto
next
  case False
  assume "st \<noteq> []"
  then show ?thesis using False by (simp add: finish_close_value)
qed

lemma before_bracket_mode:
  assumes "st \<noteq> []" and "\<not> in_num (PS m st)" and "finish (step_mode m st 93) = Inr v"
  shows "\<exists>xs. st = [FArr xs] \<and> v = JArr xs"
proof (cases m)
  case Value
  then show ?thesis using assms by (simp add: json_ws_def start_value_def is_digit_def)
next
  case ValueOrEnd
  then show ?thesis using assms by (simp add: json_ws_def finish_close_array)
next
  case KeyOrEnd
  then show ?thesis using assms by (simp add: json_ws_def)
next
  case Key
  then show ?thesis using assms by (simp add: json_ws_def)
next
  case Colon
  then show ?thesis using assms by (simp add: json_ws_def)
next
  case After
  then show ?thesis using assms by (simp add: step_after_def json_ws_def finish_close_array)
next
  case (InStr s k)
  then show ?thesis using assms by simp
next
  case (InEsc s k)
  then show ?thesis using assms by (simp add: escape_value_def)
next
  case (InUni s k n h)
  then show ?thesis using assms by (simp add: hex_value_def)
next
  case (InNum ns lit)
  then show ?thesis using assms by simp
next
  case (InLit rest w)
  then show ?thesis using assms by (auto simp: finish_close_value split: list.splits if_splits)
qed

lemma before_bracket:
  assumes "bottom_extends zs \<sigma>" and "\<not> in_num \<sigma>" and "finish (step \<sigma> 93) = Inr v"
  shows "\<exists>xs. v = JArr xs \<and> bottom_extends xs \<sigma>"
proof (cases \<sigma>)
  case (PS m st)
  then have "st \<noteq> []" using assms(1) by (simp add: bottom_def)
  with before_bracket_mode[of st m v] assms PS obtain xs where "st = [FArr xs]" "v = JArr xs"
    by auto
  then show ?thesis using PS by (simp add: bottom_def)
next
  case (Done w)
  then show ?thesis using assms by (simp add: step_done_def json_ws_def)
next
  case Err
  then show ?thesis using assms by simp
qed

lemma run_snoc: "run \<sigma> (s @ [c]) = step (run \<sigma> s) c"
  by (simp add: run_def)

text \<open>The fallback parse, and what every continuation of the cut text parses to.\<close>

lemma fallback_elements:
  assumes "JSON_parse ((91 # x) @ [125] @ [93]) = Inr v"
  shows "\<exists>xs. v = JArr xs \<and> bottom_extends xs (run (PS Value []) ((91 # x) @ [125]))"
proof -
  let ?\<sigma> = "run (PS Value []) ((91 # x) @ [125])"
  have fin: "finish (step ?\<sigma> 93) = Inr v"
    using assms by (simp add: JSON_parse_def run_snoc[symmetric])
  have "?\<sigma> = run (PS ValueOrEnd [FArr []]) (x @ [125])"
    by (simp add: run_open_bracket)
  then have b: "bottom_extends [] ?\<sigma>"
    using bottom_extends_run[OF bottom_extends_init] by simp
  have "?\<sigma> = step (run (PS Value []) (91 # x)) 125"
    by (simp only: run_snoc)
  then have n: "\<not> in_num ?\<sigma>" by (simp only: step_brace_not_num not_False_eq_True)
  from before_bracket[OF b n fin] show ?thesis .
qed

lemma continuation_elements:
  assumes "bottom_extends xs (run (PS Value []) a)" and "JSON_parse (a @ r) = Inr w"
  shows "\<exists>ys. w = JArr ys \<and> prefix xs ys"
proof -
  have "bottom_extends xs (run (PS Value []) (a @ r))"
    unfolding run_append using assms(1) by (rule bottom_extends_run)
  then show ?thesis using assms(2) bottom_extends_finish by (simp add: JSON_parse_def)
qed

text \<open>After the complete value only JSON white space parses.\<close>

lemma run_Done: "run (Done v) r = (if \<forall>c \<in> set r. json_ws c then Done v else Err)"
proof (induction r)
  case Nil
  show ?case by (simp add: run_Nil)
next
  case (Cons c r)
  have "run Err r = Err" by (induction r) (simp_all add: run_Nil run_Cons)
  then show ?case using Cons by (simp add: run_Cons step_done_def)
qed

lemma finish_Inr_bottom:
  "bottom_extends xs \<sigma> \<Longrightarrow> finish \<sigma> = Inr v \<Longrightarrow> \<sigma> = Done v"
  by (cases \<sigma>; cases "case \<sigma> of PS m st \<Rightarrow> m | _ \<Rightarrow> Value"; cases "case \<sigma> of PS m st \<Rightarrow> st | _ \<Rightarrow> []")
     (auto simp: bottom_def)

lemma complete_text_maximal:
  assumes "JSON_parse (91 # t) = Inr v" and "JSON_parse ((91 # t) @ r) = Inr w"
    and "r \<noteq> [] \<Longrightarrow> \<not> js_whitespace (last r)"
  shows "r = []"
proof (rule ccontr)
  assume ne: "r \<noteq> []"
  let ?\<sigma> = "run (PS Value []) (91 # t)"
  have "bottom_extends [] ?\<sigma>"
    using bottom_extends_run[OF bottom_extends_init, of t] by (simp add: run_open_bracket)
  then have d: "?\<sigma> = Done v" using assms(1) finish_Inr_bottom by (simp add: JSON_parse_def)
  from ne assms(3) have "\<not> json_ws (last r)" using json_ws_js by blast
  moreover have "last r \<in> set r" using ne by simp
  ultimately have "run (Done v) r = Err" unfolding run_Done by auto
  then have "JSON_parse ((91 # t) @ r) = Inl SyntaxError"
    unfolding JSON_parse_def run_append d by simp
  then show False using assms(2) by simp
qed

lemma decoded_cases:
  "decoded (Some t) =
     (if rejected (trim t) then []
      else case JSON_parse (trim t) of
        Inr v \<Rightarrow> arr_elems v
      | Inl e \<Rightarrow>
          if lastIndexOf (trim t) 125 < 0 then []
          else case JSON_parse (cut_at_last_brace (trim t) @ [93]) of
            Inr v \<Rightarrow> arr_elems v
          | Inl e' \<Rightarrow> [])"
proof -
  have j: "js '']'' = [93]" by (simp add: js_def)
  show ?thesis
  proof (cases "rejected (trim t)")
    case True
    then have "parsePartialElements (Some t) = Inr (JArr [])"
      by (intro parsePartialElements_rejects[of "trim t"]) (simp_all add: rejected_def)
    then show ?thesis using True by (simp add: decoded_def)
  next
    case False
    then have f: "\<not> (trim t = [] \<or> \<not> startsWith (trim t) (js ''[''))"
      "\<not> (nonpayload_regex (trim t) \<or> (length (trim t) > 300 \<and> \<not> includes_str (trim t) (js ''type'')))"
      by (auto simp: rejected_def)
    have "parsePartialElements (Some t) =
      (case JSON_parse (trim t) of
        Inr v \<Rightarrow> Inr v
      | Inl e \<Rightarrow>
          if lastIndexOf (trim t) 125 < 0 then Inr (JArr [])
          else case JSON_parse (cut_at_last_brace (trim t) @ [93]) of
            Inr v \<Rightarrow> Inr v
          | Inl e' \<Rightarrow> Inr (JArr []))"
      unfolding parsePartialElements_def Let_def option.case cut_at_last_brace_def j
      by (simp only: f if_False) simp
    then show ?thesis using False
      by (simp add: decoded_def arr_elems_def split: sum.splits json.splits)
  qed
qed

text \<open>
  Claim C2, as amended. Let the final payload be a text that \<open>JSON.parse\<close> accepts once
  trimmed, and let one of two prefixes of it extend the other. Whenever decoding the longer
  prefix yields a non-empty list, decoding the shorter prefix yields an initial segment of
  that list: never more elements, and no element that the longer prefix does not yield.
\<close>

theorem decoder_prefix_monotone:
  assumes valid: "JSON_parse (trim F) = Inr w"
    and pq: "prefix p q" and qF: "prefix q F"
    and ne: "decoded (Some q) \<noteq> []"
  shows "prefix (decoded (Some p)) (decoded (Some q))"
proof (cases "rejected (trim p)")
  case True
  then show ?thesis by (simp add: decoded_cases)
next
  case False
  then obtain tp where tp: "trim p = 91 # tp" by (auto simp: rejected_def startsWith_bracket)
  from ne have nq: "\<not> rejected (trim q)" by (auto simp: decoded_cases)
  have pq': "prefix (trim p) (trim q)" using trim_prefix[OF pq] tp by simp
  then have "trim q \<noteq> []" using tp by auto
  then have qF': "prefix (trim q) (trim F)" using trim_prefix[OF qF] by simp
  show ?thesis
  proof (cases "JSON_parse (trim p)")
    case (Inr v)
    from pq' qF' have "prefix (trim p) (trim F)" by (rule prefix_order.trans)
    then obtain r where r: "trim F = (91 # tp) @ r" unfolding tp by (auto simp: prefix_def)
    have "r \<noteq> [] \<Longrightarrow> \<not> js_whitespace (last r)"
    proof -
      assume "r \<noteq> []"
      then have "last r = last (trim F)" "trim F \<noteq> []" by (simp_all add: r)
      then show ?thesis using trim_last[of F] by simp
    qed
    with complete_text_maximal[of tp v r w] Inr valid have "r = []" by (simp add: tp r)
    then have "trim F = trim p" by (simp add: r tp)
    with pq' qF' have "trim q = trim p" by (simp add: prefix_order.antisym)
    then have "decoded (Some q) = decoded (Some p)" by (simp only: decoded_cases)
    then show ?thesis by simp
  next
    case (Inl e)
    show ?thesis
    proof (cases "lastIndexOf (trim p) 125 < 0")
      case True
      then show ?thesis using False Inl by (simp add: decoded_cases)
    next
      case lp: False
      let ?a = "cut_at_last_brace (trim p)"
      show ?thesis
      proof (cases "JSON_parse (?a @ [93])")
        case Inl2: (Inl e')
        then show ?thesis using False Inl lp by (simp add: decoded_cases)
      next
        case Inr2: (Inr v)
        from lp obtain x where x: "?a = x @ [125]" using cut_ends_with_brace[of "trim p"] by auto
        have "prefix (x @ [125]) (trim p)" using cut_prefix[of "trim p"] by (simp only: x)
        then have "prefix (x @ [125]) (91 # tp)" by (simp only: tp)
        then obtain y where y: "x = 91 # y"
          by (cases x) (auto simp: prefix_def)
        from Inr2 have "JSON_parse ((91 # y) @ [125] @ [93]) = Inr v" by (simp add: x y)
        from fallback_elements[OF this] obtain xs where
          v: "v = JArr xs" and b: "bottom_extends xs (run (PS Value []) ?a)"
          by (auto simp: x y)
        have dp: "decoded (Some p) = xs"
          using False Inl lp Inr2 v by (simp add: decoded_cases arr_elems_def)
        have "\<exists>ys. decoded (Some q) = ys \<and> prefix xs ys"
        proof (cases "JSON_parse (trim q)")
          case q1: (Inr w')
          have "prefix ?a (trim q)" using cut_prefix[of "trim p"] pq' by (rule prefix_order.trans)
          then obtain r where "trim q = ?a @ r" by (auto simp: prefix_def)
          with continuation_elements[OF b, of r w'] q1 obtain ys where
            "w' = JArr ys" "prefix xs ys" by auto
          then show ?thesis using nq q1 by (simp add: decoded_cases arr_elems_def)
        next
          case q2: (Inl e2)
          from ne nq q2 have lq: "\<not> lastIndexOf (trim q) 125 < 0"
            by (auto simp: decoded_cases)
          with ne nq q2 obtain w' where q3: "JSON_parse (cut_at_last_brace (trim q) @ [93]) = Inr w'"
            by (cases "JSON_parse (cut_at_last_brace (trim q) @ [93])") (auto simp: decoded_cases)
          have "prefix ?a (cut_at_last_brace (trim q))" using pq' by (rule cut_mono)
          then obtain r where "cut_at_last_brace (trim q) @ [93] = ?a @ r"
            by (auto simp: prefix_def)
          with continuation_elements[OF b, of r w'] q3 obtain ys where
            "w' = JArr ys" "prefix xs ys" by auto
          then show ?thesis using nq q2 lq q3 by (simp add: decoded_cases arr_elems_def)
        qed
        then show ?thesis using dp by simp
      qed
    qed
  qed
qed

text \<open>
  Claim C2 as stated fails. The payload is two records, the second with a label. The prefix
  that stops after \<open>"label":\<close> decodes to the first record; the longer prefix that stops
  after the label's closing brace is cut at that brace, does not parse, and decodes to
  nothing.
\<close>

theorem decoder_monotonicity_counterexample:
  "prefix (js ''[{\"id\":\"1\",\"type\":\"text\"},{\"id\":\"2\",\"label\":'')
          (js ''[{\"id\":\"1\",\"type\":\"text\"},{\"id\":\"2\",\"label\":{\"text\":\"x\"}'')
   \<and> prefix (js ''[{\"id\":\"1\",\"type\":\"text\"},{\"id\":\"2\",\"label\":{\"text\":\"x\"}'')
          (js ''[{\"id\":\"1\",\"type\":\"text\"},{\"id\":\"2\",\"label\":{\"text\":\"x\"},\"type\":\"rectangle\"}]'')
   \<and> JSON_parse (trim (js ''[{\"id\":\"1\",\"type\":\"text\"},{\"id\":\"2\",\"label\":{\"text\":\"x\"},\"type\":\"rectangle\"}]''))
       = Inr (JArr [JObj [(js ''id'', JStr (js ''1'')), (js ''type'', JStr (js ''text''))],
                    JObj [(js ''id'', JStr (js ''2'')), (js ''label'', JObj [(js ''text'', JStr (js ''x''))]),
                          (js ''type'', JStr (js ''rectangle''))]])
   \<and> decoded (Some (js ''[{\"id\":\"1\",\"type\":\"text\"},{\"id\":\"2\",\"label\":''))
       = [JObj [(js ''id'', JStr (js ''1'')), (js ''type'', JStr (js ''text''))]]
   \<and> decoded (Some (js ''[{\"id\":\"1\",\"type\":\"text\"},{\"id\":\"2\",\"label\":{\"text\":\"x\"}'')) = []"
  by (simp add: decoded_def decoder_eval)

theorem decoder_prefix_monotone_witness:
  "JSON_parse (trim (js ''[{\"id\":\"1\",\"type\":\"text\"},{\"id\":\"2\",\"type\":\"rectangle\"}]''))
       = Inr (JArr [JObj [(js ''id'', JStr (js ''1'')), (js ''type'', JStr (js ''text''))],
                    JObj [(js ''id'', JStr (js ''2'')), (js ''type'', JStr (js ''rectangle''))]])
   \<and> prefix (js ''[{\"id\":\"1\",\"type\":\"text\"},{\"id\":'')
          (js ''[{\"id\":\"1\",\"type\":\"text\"},{\"id\":\"2\",\"type\":\"rectangle\"}'')
   \<and> prefix (js ''[{\"id\":\"1\",\"type\":\"text\"},{\"id\":\"2\",\"type\":\"rectangle\"}'')
          (js ''[{\"id\":\"1\",\"type\":\"text\"},{\"id\":\"2\",\"type\":\"rectangle\"}]'')
   \<and> decoded (Some (js ''[{\"id\":\"1\",\"type\":\"text\"},{\"id\":\"2\",\"type\":\"rectangle\"}''))
       = [JObj [(js ''id'', JStr (js ''1'')), (js ''type'', JStr (js ''text''))],
          JObj [(js ''id'', JStr (js ''2'')), (js ''type'', JStr (js ''rectangle''))]]
   \<and> prefix (decoded (Some (js ''[{\"id\":\"1\",\"type\":\"text\"},{\"id\":'')))
          (decoded (Some (js ''[{\"id\":\"1\",\"type\":\"text\"},{\"id\":\"2\",\"type\":\"rectangle\"}'')))"
proof -
  have 1: "JSON_parse (trim (js ''[{\"id\":\"1\",\"type\":\"text\"},{\"id\":\"2\",\"type\":\"rectangle\"}]''))
       = Inr (JArr [JObj [(js ''id'', JStr (js ''1'')), (js ''type'', JStr (js ''text''))],
                    JObj [(js ''id'', JStr (js ''2'')), (js ''type'', JStr (js ''rectangle''))]])"
    by (simp add: decoder_eval)
  have 2: "prefix (js ''[{\"id\":\"1\",\"type\":\"text\"},{\"id\":'')
          (js ''[{\"id\":\"1\",\"type\":\"text\"},{\"id\":\"2\",\"type\":\"rectangle\"}'')"
    by (simp add: js_def)
  have 3: "prefix (js ''[{\"id\":\"1\",\"type\":\"text\"},{\"id\":\"2\",\"type\":\"rectangle\"}'')
          (js ''[{\"id\":\"1\",\"type\":\"text\"},{\"id\":\"2\",\"type\":\"rectangle\"}]'')"
    by (simp add: js_def)
  have 4: "decoded (Some (js ''[{\"id\":\"1\",\"type\":\"text\"},{\"id\":\"2\",\"type\":\"rectangle\"}''))
       = [JObj [(js ''id'', JStr (js ''1'')), (js ''type'', JStr (js ''text''))],
          JObj [(js ''id'', JStr (js ''2'')), (js ''type'', JStr (js ''rectangle''))]]"
    by (simp add: decoded_def decoder_eval)
  then have 5: "decoded (Some (js ''[{\"id\":\"1\",\"type\":\"text\"},{\"id\":\"2\",\"type\":\"rectangle\"}'')) \<noteq> []"
    by simp
  from decoder_prefix_monotone[OF 1 2 3 5]
  show ?thesis by (intro conjI 1 2 3 4)
qed



end
